theory Spec2Isabelle
  imports Main "HOL-Library.AList"
begin

section \<open>Data model\<close>

text \<open>
  A rate-limit record \<^verbatim>\<open>{isRateLimited, resetTime}\<close>. Instants and durations are
  integers of milliseconds; \<^verbatim>\<open>resetTime\<close> is \<^verbatim>\<open>null\<close> once a record is cleared.
\<close>

record limit =
  isRateLimited :: bool
  resetTime :: "int option"

text \<open>
  An account object. \<^verbatim>\<open>enabled\<close> is \<open>False\<close> exactly when the JavaScript field is the
  value \<^verbatim>\<open>false\<close> (the source tests \<^verbatim>\<open>enabled === false\<close>); \<^verbatim>\<open>isInvalid\<close> is the truthiness
  of the field. \<^verbatim>\<open>modelRateLimits\<close> is an object keyed by model id, kept in insertion
  order, or absent (\<open>None\<close>).
\<close>

record account =
  email :: string
  source :: string
  refreshToken :: string
  apiKey :: string
  enabled :: bool
  isInvalid :: bool
  invalidReason :: "string option"
  invalidAt :: "int option"
  modelRateLimits :: "(string \<times> limit) list option"
  lastUsed :: "int option"

record settings =
  cooldownDurationMs :: "int option"

subsection \<open>JavaScript coercions used by the source\<close>

text \<open>\<^verbatim>\<open>null\<close> compares as the number 0.\<close>

definition toNumber :: "int option \<Rightarrow> int" where
  "toNumber v = (case v of None \<Rightarrow> 0 | Some n \<Rightarrow> n)"

text \<open>A number is truthy unless it is \<^verbatim>\<open>null\<close> or 0.\<close>

definition truthyNum :: "int option \<Rightarrow> bool" where
  "truthyNum v = (case v of None \<Rightarrow> False | Some n \<Rightarrow> n \<noteq> 0)"

text \<open>A string is truthy unless it is \<^verbatim>\<open>null\<close> or empty.\<close>

definition truthyStr :: "string option \<Rightarrow> bool" where
  "truthyStr v = (case v of None \<Rightarrow> False | Some s \<Rightarrow> s \<noteq> [])"

text \<open>A value used as a property key: \<^verbatim>\<open>null\<close> becomes the key \<^verbatim>\<open>"null"\<close>.\<close>

definition propKey :: "string option \<Rightarrow> string" where
  "propKey v = (case v of None \<Rightarrow> ''null'' | Some s \<Rightarrow> s)"

text \<open>\<^verbatim>\<open>account.modelRateLimits && account.modelRateLimits[key]\<close>\<close>

definition limitOf :: "account \<Rightarrow> string \<Rightarrow> limit option" where
  "limitOf acc key = (case modelRateLimits acc of None \<Rightarrow> None | Some m \<Rightarrow> map_of m key)"

text \<open>
  \<^verbatim>\<open>modelId && account.modelRateLimits && account.modelRateLimits[modelId]\<close>:
  the record consulted by the model-specific checks, if any.
\<close>

definition modelLimit :: "account \<Rightarrow> string option \<Rightarrow> limit option" where
  "modelLimit acc modelId = (if truthyStr modelId then limitOf acc (propKey modelId) else None)"

text \<open>\<^verbatim>\<open>accounts.find(a => a.email === email)\<close>, as the position of the object found.\<close>

fun findIndex :: "('a \<Rightarrow> bool) \<Rightarrow> 'a list \<Rightarrow> nat option" where
  "findIndex P [] = None"
| "findIndex P (x # xs) =
     (if P x then Some 0 else (case findIndex P xs of None \<Rightarrow> None | Some i \<Rightarrow> Some (Suc i)))"

section \<open>Rate-limit ledger (rate-limits.js)\<close>

text \<open>
  Every function takes the instant \<open>now\<close> that \<^verbatim>\<open>Date.now()\<close> returns; the reads of the
  clock inside one synchronous call are taken to give the same instant.
\<close>

definition isAllRateLimited :: "account list \<Rightarrow> string option \<Rightarrow> int \<Rightarrow> bool" where
  "isAllRateLimited accounts modelId now =
     (if accounts = [] then True
      else if \<not> truthyStr modelId then False
      else list_all (\<lambda>acc.
             if isInvalid acc then True
             else (case limitOf acc (propKey modelId) of
                     None \<Rightarrow> False
                   | Some l \<Rightarrow> isRateLimited l \<and> toNumber (resetTime l) > now)) accounts)"

definition getAvailableAccounts :: "account list \<Rightarrow> string option \<Rightarrow> int \<Rightarrow> account list" where
  "getAvailableAccounts accounts modelId now =
     filter (\<lambda>acc.
       if isInvalid acc then False
       else if \<not> enabled acc then False
       else (case modelLimit acc modelId of
               Some l \<Rightarrow> \<not> (isRateLimited l \<and> toNumber (resetTime l) > now)
             | None \<Rightarrow> True)) accounts"

definition getInvalidAccounts :: "account list \<Rightarrow> account list" where
  "getInvalidAccounts accounts = filter isInvalid accounts"

text \<open>The body of the inner loop of \<^verbatim>\<open>clearExpiredLimits\<close>, on one record.\<close>

definition expired :: "limit \<Rightarrow> int \<Rightarrow> bool" where
  "expired l now = (isRateLimited l \<and> toNumber (resetTime l) \<le> now)"

definition clearLimit :: "int \<Rightarrow> limit \<Rightarrow> limit" where
  "clearLimit now l = (if expired l now then l\<lparr>isRateLimited := False, resetTime := None\<rparr> else l)"

definition clearAccount :: "int \<Rightarrow> account \<Rightarrow> account" where
  "clearAccount now acc =
     (case modelRateLimits acc of
        None \<Rightarrow> acc
      | Some m \<Rightarrow> acc\<lparr>modelRateLimits := Some (map (\<lambda>(k, l). (k, clearLimit now l)) m)\<rparr>)"

definition countExpired :: "int \<Rightarrow> account \<Rightarrow> nat" where
  "countExpired now acc =
     (case modelRateLimits acc of
        None \<Rightarrow> 0
      | Some m \<Rightarrow> length (filter (\<lambda>(k, l). expired l now) m))"

text \<open>\<^verbatim>\<open>clearExpiredLimits\<close>: the accounts after the mutation, and the number cleared.\<close>

definition clearExpiredLimits :: "account list \<Rightarrow> int \<Rightarrow> account list \<times> nat" where
  "clearExpiredLimits accounts now =
     (map (clearAccount now) accounts, sum_list (map (countExpired now) accounts))"

definition resetAllRateLimits :: "account list \<Rightarrow> account list" where
  "resetAllRateLimits accounts =
     map (\<lambda>acc. case modelRateLimits acc of
                  None \<Rightarrow> acc
                | Some m \<Rightarrow> acc\<lparr>modelRateLimits :=
                     Some (map (\<lambda>(k, l). (k, \<lparr>isRateLimited = False, resetTime = None\<rparr>)) m)\<rparr>)
         accounts"

text \<open>
  \<^verbatim>\<open>markRateLimited(accounts, email, resetMs, settings, modelId)\<close>. The constant
  \<^verbatim>\<open>DEFAULT_COOLDOWN_MS\<close> is read from the configuration; it is the parameter \<open>dflt\<close>.
  \<^verbatim>\<open>resetMs || settings.cooldownDurationMs || DEFAULT_COOLDOWN_MS\<close> skips a \<^verbatim>\<open>null\<close> and a 0.
\<close>

definition cooldownMs :: "int \<Rightarrow> int option \<Rightarrow> settings \<Rightarrow> int" where
  "cooldownMs dflt resetMs st =
     (if truthyNum resetMs then toNumber resetMs
      else if truthyNum (cooldownDurationMs st) then toNumber (cooldownDurationMs st)
      else dflt)"

definition setLimit :: "account \<Rightarrow> string \<Rightarrow> limit \<Rightarrow> account" where
  "setLimit acc key l =
     acc\<lparr>modelRateLimits :=
       Some (AList.update key l (case modelRateLimits acc of None \<Rightarrow> [] | Some m \<Rightarrow> m))\<rparr>"

definition markRateLimited ::
  "int \<Rightarrow> account list \<Rightarrow> string \<Rightarrow> int option \<Rightarrow> settings \<Rightarrow> string option \<Rightarrow> int
     \<Rightarrow> account list \<times> bool" where
  "markRateLimited dflt accounts em resetMs st modelId now =
     (case findIndex (\<lambda>a. email a = em) accounts of
        None \<Rightarrow> (accounts, False)
      | Some i \<Rightarrow>
          (accounts[i := setLimit (accounts ! i) (propKey modelId)
              \<lparr>isRateLimited = True, resetTime = Some (now + cooldownMs dflt resetMs st)\<rparr>],
           True))"

definition markInvalid :: "account list \<Rightarrow> string \<Rightarrow> string \<Rightarrow> int \<Rightarrow> account list \<times> bool" where
  "markInvalid accounts em reason now =
     (case findIndex (\<lambda>a. email a = em) accounts of
        None \<Rightarrow> (accounts, False)
      | Some i \<Rightarrow>
          (accounts[i := (accounts ! i)\<lparr>isInvalid := True, invalidReason := Some reason,
                                        invalidAt := Some now\<rparr>],
           True))"

text \<open>
  The loop of \<^verbatim>\<open>getMinWaitTimeMs\<close>; \<open>minWait\<close> is \<open>None\<close> while it is
  \<^verbatim>\<open>Infinity\<close>.
\<close>

fun minWaitLoop :: "account list \<Rightarrow> string option \<Rightarrow> int \<Rightarrow> int option \<Rightarrow> int option" where
  "minWaitLoop [] modelId now minWait = minWait"
| "minWaitLoop (acc # rest) modelId now minWait =
     minWaitLoop rest modelId now
       (case modelLimit acc modelId of
          None \<Rightarrow> minWait
        | Some l \<Rightarrow>
            if isRateLimited l \<and> truthyNum (resetTime l) then
              (let wait = toNumber (resetTime l) - now in
               if wait > 0 \<and> (case minWait of None \<Rightarrow> True | Some m \<Rightarrow> wait < m)
               then Some wait else minWait)
            else minWait)"

definition getMinWaitTimeMs :: "int \<Rightarrow> account list \<Rightarrow> string option \<Rightarrow> int \<Rightarrow> int" where
  "getMinWaitTimeMs dflt accounts modelId now =
     (if \<not> isAllRateLimited accounts modelId now then 0
      else (case minWaitLoop accounts modelId now None of
              None \<Rightarrow> dflt
            | Some w \<Rightarrow> w))"

section \<open>Account selection (selection.js)\<close>

text \<open>
  \<^verbatim>\<open>accounts[idx]\<close>: \<^verbatim>\<open>undefined\<close> beyond the end of the array. Positions are natural
  numbers.
\<close>

definition nthOpt :: "'a list \<Rightarrow> nat \<Rightarrow> 'a option" where
  "nthOpt xs i = (if i < length xs then Some (xs ! i) else None)"

definition isAccountUsable :: "account option \<Rightarrow> string option \<Rightarrow> int \<Rightarrow> bool" where
  "isAccountUsable account modelId now =
     (case account of
        None \<Rightarrow> False
      | Some acc \<Rightarrow>
          if isInvalid acc then False
          else if \<not> enabled acc then False
          else (case modelLimit acc modelId of
                  Some l \<Rightarrow> \<not> (isRateLimited l \<and> toNumber (resetTime l) > now)
                | None \<Rightarrow> True))"

text \<open>\<^verbatim>\<open>let index = currentIndex; if (index >= accounts.length) index = 0;\<close>\<close>

definition clampIndex :: "'a list \<Rightarrow> nat \<Rightarrow> nat" where
  "clampIndex accounts currentIndex = (if currentIndex \<ge> length accounts then 0 else currentIndex)"

text \<open>The value \<^verbatim>\<open>{ account, newIndex }\<close> returned by the pickers.\<close>

record picked =
  account :: "account option"
  newIndex :: nat

text \<open>
  The \<^verbatim>\<open>for\<close> loop of \<^verbatim>\<open>pickNext\<close> over the offsets \<open>i\<close> still to try: the position of
  the first usable account, if the loop returns from inside.
\<close>

fun scanFrom :: "account list \<Rightarrow> string option \<Rightarrow> int \<Rightarrow> nat \<Rightarrow> nat list \<Rightarrow> nat option" where
  "scanFrom accounts modelId now index [] = None"
| "scanFrom accounts modelId now index (i # rest) =
     (let idx = (index + i) mod length accounts in
      if isAccountUsable (nthOpt accounts idx) modelId now then Some idx
      else scanFrom accounts modelId now index rest)"

text \<open>
  \<^verbatim>\<open>pickNext\<close>: the account list after the mutations (expired limits cleared,
  \<^verbatim>\<open>lastUsed\<close> touched) and the returned value. The save callback writes the external
  store and is not modelled.
\<close>

definition touch :: "int \<Rightarrow> account \<Rightarrow> account" where
  "touch now acc = acc\<lparr>lastUsed := Some now\<rparr>"

definition pickNext :: "account list \<Rightarrow> nat \<Rightarrow> string option \<Rightarrow> int \<Rightarrow> account list \<times> picked" where
  "pickNext accounts0 currentIndex modelId now =
     (let accounts = fst (clearExpiredLimits accounts0 now);
          available = getAvailableAccounts accounts modelId now
      in if length available = 0 then (accounts, \<lparr>account = None, newIndex = currentIndex\<rparr>)
         else
           (let index = clampIndex accounts currentIndex in
            case scanFrom accounts modelId now index [1..<Suc (length accounts)] of
              Some idx \<Rightarrow>
                (accounts[idx := touch now (accounts ! idx)],
                 \<lparr>account = Some (touch now (accounts ! idx)), newIndex = idx\<rparr>)
            | None \<Rightarrow> (accounts, \<lparr>account = None, newIndex = currentIndex\<rparr>)))"

definition getCurrentStickyAccount ::
  "account list \<Rightarrow> nat \<Rightarrow> string option \<Rightarrow> int \<Rightarrow> account list \<times> picked" where
  "getCurrentStickyAccount accounts0 currentIndex modelId now =
     (let accounts = fst (clearExpiredLimits accounts0 now)
      in if length accounts = 0 then (accounts, \<lparr>account = None, newIndex = currentIndex\<rparr>)
         else
           (let index = clampIndex accounts currentIndex in
            if isAccountUsable (nthOpt accounts index) modelId now
            then (accounts[index := touch now (accounts ! index)],
                  \<lparr>account = Some (touch now (accounts ! index)), newIndex = index\<rparr>)
            else (accounts, \<lparr>account = None, newIndex = index\<rparr>)))"

text \<open>The value \<^verbatim>\<open>{ shouldWait, waitMs, account }\<close>.\<close>

record waitInfo =
  shouldWait :: bool
  waitFor :: int
  waitAccount :: "account option"

text \<open>
  \<^verbatim>\<open>shouldWaitForCurrentAccount\<close>; \<^verbatim>\<open>MAX_WAIT_BEFORE_ERROR_MS\<close> is read from the
  configuration and is the parameter \<open>maxWait\<close>.
\<close>

definition shouldWaitForCurrentAccount ::
  "int \<Rightarrow> account list \<Rightarrow> nat \<Rightarrow> string option \<Rightarrow> int \<Rightarrow> waitInfo" where
  "shouldWaitForCurrentAccount maxWait accounts currentIndex modelId now =
     (if length accounts = 0 then \<lparr>shouldWait = False, waitFor = 0, waitAccount = None\<rparr>
      else
        (let index = clampIndex accounts currentIndex in
         case nthOpt accounts index of
           None \<Rightarrow> \<lparr>shouldWait = False, waitFor = 0, waitAccount = None\<rparr>
         | Some acc \<Rightarrow>
             if isInvalid acc then \<lparr>shouldWait = False, waitFor = 0, waitAccount = None\<rparr>
             else
               (let waitMs =
                      (case modelLimit acc modelId of
                         None \<Rightarrow> 0
                       | Some l \<Rightarrow>
                           if isRateLimited l \<and> truthyNum (resetTime l)
                           then toNumber (resetTime l) - now else 0)
                in if waitMs > 0 \<and> waitMs \<le> maxWait
                   then \<lparr>shouldWait = True, waitFor = waitMs, waitAccount = Some acc\<rparr>
                   else \<lparr>shouldWait = False, waitFor = 0, waitAccount = Some acc\<rparr>)))"

text \<open>The value \<^verbatim>\<open>{ account, waitMs, newIndex }\<close> of \<^verbatim>\<open>pickStickyAccount\<close>.\<close>

record sticky =
  stickyAccount :: "account option"
  waitMs :: int
  stickyIndex :: nat

definition pickStickyAccount ::
  "int \<Rightarrow> account list \<Rightarrow> nat \<Rightarrow> string option \<Rightarrow> int \<Rightarrow> account list \<times> sticky" where
  "pickStickyAccount maxWait accounts0 currentIndex modelId now =
     (let (accounts1, cur) = getCurrentStickyAccount accounts0 currentIndex modelId now in
      case account cur of
        Some a \<Rightarrow> (accounts1, \<lparr>stickyAccount = Some a, waitMs = 0, stickyIndex = newIndex cur\<rparr>)
      | None \<Rightarrow>
          (let available = getAvailableAccounts accounts1 modelId now;
               (accounts2, nxt) =
                  (if length available > 0 then pickNext accounts1 currentIndex modelId now
                   else (accounts1, \<lparr>account = None, newIndex = currentIndex\<rparr>))
           in if length available > 0 \<and> account nxt \<noteq> None
              then (accounts2, \<lparr>stickyAccount = account nxt, waitMs = 0, stickyIndex = newIndex nxt\<rparr>)
              else
                (let w = shouldWaitForCurrentAccount maxWait accounts2 currentIndex modelId now in
                 if shouldWait w
                 then (accounts2, \<lparr>stickyAccount = None, waitMs = waitFor w, stickyIndex = currentIndex\<rparr>)
                 else
                   (let (accounts3, nxt2) = pickNext accounts2 currentIndex modelId now in
                    (accounts3, \<lparr>stickyAccount = account nxt2, waitMs = 0,
                                 stickyIndex = newIndex nxt2\<rparr>)))))"

section \<open>Error classification (utils/helpers.js)\<close>

text \<open>
  \<^verbatim>\<open>String.prototype.toLowerCase\<close> on the characters the patterns below can match, and
  \<^verbatim>\<open>String.prototype.includes\<close> (here \<open>includesStr\<close>).
\<close>

definition lowerChar :: "char \<Rightarrow> char" where
  "lowerChar c =
     (case map_of (zip ''ABCDEFGHIJKLMNOPQRSTUVWXYZ'' ''abcdefghijklmnopqrstuvwxyz'') c of
        None \<Rightarrow> c
      | Some d \<Rightarrow> d)"

definition toLowerCase :: "string \<Rightarrow> string" where
  "toLowerCase s = map lowerChar s"

fun startsWith :: "string \<Rightarrow> string \<Rightarrow> bool" where
  "startsWith s [] = True"
| "startsWith [] (p # ps) = False"
| "startsWith (c # cs) (p # ps) = (c = p \<and> startsWith cs ps)"

fun includesStr :: "string \<Rightarrow> string \<Rightarrow> bool" where
  "includesStr [] sub = (sub = [])"
| "includesStr (c # cs) sub = (startsWith (c # cs) sub \<or> includesStr cs sub)"

definition isNetworkError :: "string \<Rightarrow> bool" where
  "isNetworkError message =
     (let msg = toLowerCase message in
      includesStr msg ''fetch failed'' \<or>
      includesStr msg ''network error'' \<or>
      includesStr msg ''econnreset'' \<or>
      includesStr msg ''etimedout'' \<or>
      includesStr msg ''socket hang up'' \<or>
      includesStr msg ''timeout'')"

text \<open>\<^verbatim>\<open>isRateLimitError\<close> and \<^verbatim>\<open>isAuthError\<close> as utils/helpers.js defines them.\<close>

definition helperIsRateLimitError :: "string \<Rightarrow> bool" where
  "helperIsRateLimitError message =
     (let msg = toLowerCase message in
      includesStr msg ''429'' \<or>
      includesStr msg ''resource_exhausted'' \<or>
      includesStr msg ''quota_exhausted'')"

definition helperIsAuthError :: "string \<Rightarrow> bool" where
  "helperIsAuthError message =
     (let msg = toLowerCase message in
      includesStr msg ''401'' \<or>
      includesStr msg ''unauthenticated'' \<or>
      includesStr msg ''invalid_grant'' \<or>
      includesStr msg ''invalid_client'')"

section \<open>Credentials (credentials.js)\<close>

text \<open>An entry \<^verbatim>\<open>{ token, extractedAt }\<close> of the token cache, a \<^verbatim>\<open>Map\<close> keyed by email.\<close>

record tokenEntry =
  token :: string
  extractedAt :: int

type_synonym tokenCache = "string \<rightharpoonup> tokenEntry"

text \<open>
  What the outside world answers when \<^verbatim>\<open>getTokenForAccount\<close> asks: the outcome of
  \<^verbatim>\<open>refreshAccessToken\<close> and of \<^verbatim>\<open>getAuthStatus\<close>, either the message of the error thrown
  (\<open>Inl\<close>) or the token (\<open>Inr\<close>).
\<close>

record authWorld =
  refreshOutcome :: "string + string"
  databaseOutcome :: "string + string"

text \<open>
  \<^verbatim>\<open>AccountManager.getTokenForAccount(account)\<close>. The account object is one of the
  objects of the manager's list, named by its position \<open>i\<close>: clearing its
  \<^verbatim>\<open>isInvalid\<close> flag changes the list. \<^verbatim>\<open>onInvalid\<close> is the manager's \<^verbatim>\<open>markInvalid\<close>,
  which looks the account up by email. A thrown error is \<open>Inl\<close> of its message.
  \<^verbatim>\<open>TOKEN_REFRESH_INTERVAL_MS\<close> is the parameter \<open>ttl\<close>. A missing \<^verbatim>\<open>refreshToken\<close> or
  \<^verbatim>\<open>apiKey\<close> is the empty string.
\<close>

definition getTokenForAccount ::
  "int \<Rightarrow> authWorld \<Rightarrow> account list \<Rightarrow> nat \<Rightarrow> tokenCache \<Rightarrow> int
     \<Rightarrow> (account list \<times> tokenCache) \<times> (string + string)" where
  "getTokenForAccount ttl world accounts i cache now =
     (let acc = accounts ! i in
      case (case cache (email acc) of
              None \<Rightarrow> None
            | Some cached \<Rightarrow> if now - extractedAt cached < ttl then Some (token cached) else None) of
        Some tok \<Rightarrow> ((accounts, cache), Inr tok)
      | None \<Rightarrow>
          if source acc = ''oauth'' \<and> refreshToken acc \<noteq> [] then
            (case refreshOutcome world of
               Inr tok \<Rightarrow>
                 ((if isInvalid acc
                   then accounts[i := acc\<lparr>isInvalid := False, invalidReason := None\<rparr>]
                   else accounts,
                   cache(email acc \<mapsto> \<lparr>token = tok, extractedAt = now\<rparr>)),
                  Inr tok)
             | Inl message \<Rightarrow>
                 if isNetworkError message
                 then ((accounts, cache), Inl (''AUTH_NETWORK_ERROR: '' @ message))
                 else ((fst (markInvalid accounts (email acc) message now), cache),
                       Inl (''AUTH_INVALID: '' @ email acc @ '': '' @ message)))
          else if source acc = ''manual'' \<and> apiKey acc \<noteq> [] then
            ((accounts, cache(email acc \<mapsto> \<lparr>token = apiKey acc, extractedAt = now\<rparr>)),
             Inr (apiKey acc))
          else
            (case databaseOutcome world of
               Inr tok \<Rightarrow>
                 ((accounts, cache(email acc \<mapsto> \<lparr>token = tok, extractedAt = now\<rparr>)), Inr tok)
             | Inl message \<Rightarrow> ((accounts, cache), Inl message)))"

section \<open>Account manager (account-manager/index.js)\<close>

text \<open>The private fields of the \<^verbatim>\<open>AccountManager\<close> that the dispatcher reaches.\<close>

record manager =
  m_accounts :: "account list"
  m_currentIndex :: nat
  m_settings :: settings
  m_tokenCache :: tokenCache

definition mgr_clearExpiredLimits :: "manager \<Rightarrow> int \<Rightarrow> manager" where
  "mgr_clearExpiredLimits m now = m\<lparr>m_accounts := fst (clearExpiredLimits (m_accounts m) now)\<rparr>"

definition mgr_pickNext :: "manager \<Rightarrow> string option \<Rightarrow> int \<Rightarrow> manager \<times> account option" where
  "mgr_pickNext m modelId now =
     (let (accs, r) = pickNext (m_accounts m) (m_currentIndex m) modelId now in
      (m\<lparr>m_accounts := accs, m_currentIndex := newIndex r\<rparr>, account r))"

definition mgr_getCurrentStickyAccount ::
  "manager \<Rightarrow> string option \<Rightarrow> int \<Rightarrow> manager \<times> account option" where
  "mgr_getCurrentStickyAccount m modelId now =
     (let (accs, r) = getCurrentStickyAccount (m_accounts m) (m_currentIndex m) modelId now in
      (m\<lparr>m_accounts := accs, m_currentIndex := newIndex r\<rparr>, account r))"

definition mgr_pickStickyAccount ::
  "int \<Rightarrow> manager \<Rightarrow> string option \<Rightarrow> int \<Rightarrow> manager \<times> account option \<times> int" where
  "mgr_pickStickyAccount maxWait m modelId now =
     (let (accs, r) = pickStickyAccount maxWait (m_accounts m) (m_currentIndex m) modelId now in
      (m\<lparr>m_accounts := accs, m_currentIndex := stickyIndex r\<rparr>, stickyAccount r, waitMs r))"

definition mgr_markRateLimited ::
  "int \<Rightarrow> manager \<Rightarrow> string \<Rightarrow> int option \<Rightarrow> string option \<Rightarrow> int \<Rightarrow> manager" where
  "mgr_markRateLimited dflt m em resetMs modelId now =
     m\<lparr>m_accounts := fst (markRateLimited dflt (m_accounts m) em resetMs (m_settings m) modelId now)\<rparr>"

definition mgr_getTokenForAccount ::
  "int \<Rightarrow> authWorld \<Rightarrow> manager \<Rightarrow> nat \<Rightarrow> int \<Rightarrow> manager \<times> (string + string)" where
  "mgr_getTokenForAccount ttl world m i now =
     (let ((accs, cache), r) = getTokenForAccount ttl world (m_accounts m) i (m_tokenCache m) now in
      (m\<lparr>m_accounts := accs, m_tokenCache := cache\<rparr>, r))"

section \<open>Dispatcher (cloudcode/message-handler.js, cloudcode/streaming-handler.js)\<close>

text \<open>
  What the configuration and the modules outside these files supply: \<^verbatim>\<open>MAX_RETRIES\<close>,
  \<^verbatim>\<open>MAX_WAIT_BEFORE_ERROR_MS\<close>, \<^verbatim>\<open>DEFAULT_COOLDOWN_MS\<close>, \<^verbatim>\<open>TOKEN_REFRESH_INTERVAL_MS\<close>,
  \<^verbatim>\<open>getFallbackModel\<close> of fallback-config.js, \<^verbatim>\<open>isRateLimitError\<close> and \<^verbatim>\<open>isAuthError\<close> of
  errors.js. \<open>streaming\<close> tells \<^verbatim>\<open>sendMessageStream\<close> from \<^verbatim>\<open>sendMessage\<close>.
\<close>

record config =
  maxRetries :: nat
  maxWaitBeforeError :: int
  defaultCooldown :: int
  tokenTtl :: int
  getFallbackModel :: "string option \<Rightarrow> string option"
  isRateLimitError :: "string \<Rightarrow> bool"
  isAuthError :: "string \<Rightarrow> bool"
  streaming :: bool

text \<open>
  The answer of one endpoint of \<^verbatim>\<open>ANTIGRAVITY_ENDPOINT_FALLBACKS\<close> to the POST: either
  \<^verbatim>\<open>fetch\<close> (or reading the error body) throws, or there is a response with its status,
  the text of its body, what \<^verbatim>\<open>parseResetTime(response, errorText)\<close> makes of it
  (\<^verbatim>\<open>null\<close> or milliseconds), and what handing the body to the parser gives: the
  converted response (\<open>Inr\<close>) or the message of the exception thrown (\<open>Inl\<close>).
\<close>

datatype reply =
  FetchFails string
| Response nat string "int option" "string + string"

text \<open>
  What one attempt on an account meets: the token sources, an exception of the project
  lookup or the request builder if any, the time the network takes, and the replies of
  the endpoints of the fallback list, in order, one for each endpoint.
\<close>

record attemptEnv =
  auth :: authWorld
  prepareError :: "string option"
  elapsed :: nat
  replies :: "reply list"

text \<open>The variable \<^verbatim>\<open>lastError\<close>: \<^verbatim>\<open>null\<close>, the object \<^verbatim>\<open>{is429, errorText, resetMs}\<close>, or an \<^verbatim>\<open>Error\<close>.\<close>

datatype lastError =
  NoError
| Is429 "int option" string
| ErrorObj string

text \<open>How the loop over the endpoints ends.\<close>

datatype endpointsExit =
  Returned string
| Rethrown string
| Exhausted lastError

text \<open>The number in a template string.\<close>

definition digitChar :: "nat \<Rightarrow> char" where
  "digitChar d = ''0123456789'' ! d"

function showNat :: "nat \<Rightarrow> string" where
  "showNat n = (if n < 10 then [digitChar n] else showNat (n div 10) @ [digitChar (n mod 10)])"
  by pat_completeness auto
termination
  by (relation "measure id") auto

text \<open>
  \<^verbatim>\<open>if (!lastError?.is429 || (resetMs && (!lastError.resetMs || resetMs < lastError.resetMs)))\<close>
  \<^verbatim>\<open>lastError = { is429: true, response, errorText, resetMs }\<close>
\<close>

definition keep429 :: "lastError \<Rightarrow> int option \<Rightarrow> string \<Rightarrow> lastError" where
  "keep429 lastErr resetMs errorText =
     (case lastErr of
        Is429 prevMs prevText \<Rightarrow>
          if truthyNum resetMs \<and> (\<not> truthyNum prevMs \<or> toNumber resetMs < toNumber prevMs)
          then Is429 resetMs errorText else lastErr
      | _ \<Rightarrow> Is429 resetMs errorText)"

text \<open>
  The loop \<^verbatim>\<open>for (const endpoint of ANTIGRAVITY_ENDPOINT_FALLBACKS)\<close> over the replies
  still to come. It threads the token cache (cleared for the account on a 401) and the
  clock (a 5xx sleeps one second).
\<close>

fun tryEndpoints ::
  "config \<Rightarrow> string \<Rightarrow> reply list \<Rightarrow> lastError \<Rightarrow> tokenCache \<times> int
     \<Rightarrow> (tokenCache \<times> int) \<times> endpointsExit" where
  "tryEndpoints cfg em [] lastErr st = (st, Exhausted lastErr)"
| "tryEndpoints cfg em (FetchFails message # rest) lastErr st =
     (if isRateLimitError cfg message then (st, Rethrown message)
      else tryEndpoints cfg em rest (ErrorObj message) st)"
| "tryEndpoints cfg em (Response status errorText resetMs handled # rest) lastErr (cache, clock) =
     (let ok = (200 \<le> status \<and> status \<le> 299) in
      if \<not> ok \<and> status = 401 then
        tryEndpoints cfg em rest lastErr (cache(em := None), clock)
      else if \<not> ok \<and> status = 429 then
        tryEndpoints cfg em rest (keep429 lastErr resetMs errorText) (cache, clock)
      else if \<not> ok \<and> (streaming cfg \<or> status \<ge> 400) then
        tryEndpoints cfg em rest
          (ErrorObj (''API error '' @ showNat status @ '': '' @ errorText))
          (cache, if status \<ge> 500 then clock + 1000 else clock)
      else
        (case handled of
           Inr response \<Rightarrow> ((cache, clock), Returned response)
         | Inl message \<Rightarrow>
             if isRateLimitError cfg message then ((cache, clock), Rethrown message)
             else tryEndpoints cfg em rest (ErrorObj message) (cache, clock)))"

text \<open>
  The dispatcher's state: the manager, the clock, the number of account attempts
  started so far (it picks the next \<open>attemptEnv\<close>), and the fallback models announced
  by the \<^verbatim>\<open>logger.warn\<close> line of the fallback branch.
\<close>

record world =
  mgr :: manager
  clock :: int
  ticks :: nat
  fallbacks :: "string list"

text \<open>\<^verbatim>\<open>await sleep(ms)\<close>: a timer of zero or less fires at once.\<close>

definition sleep :: "int \<Rightarrow> world \<Rightarrow> world" where
  "sleep ms w = w\<lparr>clock := clock w + max 0 ms\<rparr>"

text \<open>How the \<^verbatim>\<open>try\<close> block of one attempt ends.\<close>

datatype tryExit =
  Success string
| Raised string
| FellThrough

text \<open>
  The \<^verbatim>\<open>try\<close> block of one attempt, for the account object at position \<open>i\<close> of the
  manager's list: token, project and payload, the loop over the endpoints, and the
  verdict on \<^verbatim>\<open>lastError\<close> after the loop.
\<close>

definition tryAccount ::
  "config \<Rightarrow> attemptEnv \<Rightarrow> string option \<Rightarrow> nat \<Rightarrow> world \<Rightarrow> world \<times> tryExit" where
  "tryAccount cfg ev model i w0 =
     (let em = email (m_accounts (mgr w0) ! i);
          (m1, tok) = mgr_getTokenForAccount (tokenTtl cfg) (auth ev) (mgr w0) i (clock w0);
          w1 = w0\<lparr>mgr := m1\<rparr>
      in case tok of
           Inl message \<Rightarrow> (w1, Raised message)
         | Inr t \<Rightarrow>
             (case prepareError ev of
                Some message \<Rightarrow> (w1, Raised message)
              | None \<Rightarrow>
                  (let w2 = w1\<lparr>clock := clock w1 + int (elapsed ev)\<rparr>;
                       ((cache, clk), ex) =
                          tryEndpoints cfg em (replies ev) NoError (m_tokenCache (mgr w2), clock w2);
                       w3 = w2\<lparr>mgr := (mgr w2)\<lparr>m_tokenCache := cache\<rparr>, clock := clk\<rparr>
                   in case ex of
                        Returned response \<Rightarrow> (w3, Success response)
                      | Rethrown message \<Rightarrow> (w3, Raised message)
                      | Exhausted NoError \<Rightarrow> (w3, FellThrough)
                      | Exhausted (Is429 resetMs errorText) \<Rightarrow>
                          (w3\<lparr>mgr := mgr_markRateLimited (defaultCooldown cfg) (mgr w3) em resetMs
                                       model (clock w3)\<rparr>,
                           Raised (''Rate limited: '' @ errorText))
                      | Exhausted (ErrorObj message) \<Rightarrow> (w3, Raised message))))"

text \<open>How one round of the outer loop ends.\<close>

datatype roundExit =
  Failed string
| NextAttempt

text \<open>The \<^verbatim>\<open>catch (error)\<close> of the outer loop.\<close>

definition handleError :: "config \<Rightarrow> string option \<Rightarrow> string \<Rightarrow> world \<Rightarrow> world \<times> roundExit" where
  "handleError cfg model message w =
     (if isRateLimitError cfg message then (w, NextAttempt)
      else if isAuthError cfg message then (w, NextAttempt)
      else if includesStr message ''API error 5'' \<or> includesStr message ''500''
              \<or> includesStr message ''503''
      then (w\<lparr>mgr := fst (mgr_pickNext (mgr w) model (clock w))\<rparr>, NextAttempt)
      else if isNetworkError message
      then (let w1 = sleep 1000 w in
            (w1\<lparr>mgr := fst (mgr_pickNext (mgr w1) model (clock w1))\<rparr>, NextAttempt))
      else (w, Failed message))"

text \<open>The errors that \<^verbatim>\<open>sendMessage\<close> itself throws, and an error passed on.\<close>

datatype failure =
  ResourceExhausted "string option" int
| NoAccountsAvailable
| MaxRetriesExceeded
| Thrown string

text \<open>
  The head of a round, up to \<^verbatim>\<open>if (!account)\<close> after the all-rate-limited branch:
  the account to try, \<^verbatim>\<open>null\<close>, or the \<^verbatim>\<open>RESOURCE_EXHAUSTED\<close> error. An account object
  returned by a picker is the object at the index the picker returns, which is the
  manager's current index afterwards; it is kept as that position.
\<close>

definition obtainAccount ::
  "config \<Rightarrow> string option \<Rightarrow> world \<Rightarrow> world \<times> (failure + nat option)" where
  "obtainAccount cfg model w0 =
     (let (m1, sticky, waitFor) =
            mgr_pickStickyAccount (maxWaitBeforeError cfg) (mgr w0) model (clock w0);
          w1 = w0\<lparr>mgr := m1\<rparr>;
          (w2, account2) =
            (if sticky = None \<and> waitFor > 0 then
               (let wa = sleep waitFor w1;
                    wb = wa\<lparr>mgr := mgr_clearExpiredLimits (mgr wa) (clock wa)\<rparr>;
                    (m2, cur) = mgr_getCurrentStickyAccount (mgr wb) model (clock wb)
                in (wb\<lparr>mgr := m2\<rparr>, cur))
             else (w1, sticky))
      in if account2 \<noteq> None then (w2, Inr (Some (m_currentIndex (mgr w2))))
         else if isAllRateLimited (m_accounts (mgr w2)) model (clock w2) then
           (let allWaitMs = getMinWaitTimeMs (defaultCooldown cfg) (m_accounts (mgr w2)) model (clock w2)
            in if allWaitMs > maxWaitBeforeError cfg
               then (w2, Inl (ResourceExhausted model allWaitMs))
               else
                 (let wa = sleep allWaitMs w2;
                      wb = wa\<lparr>mgr := mgr_clearExpiredLimits (mgr wa) (clock wa)\<rparr>;
                      (m3, nxt) = mgr_pickNext (mgr wb) model (clock wb)
                  in (wb\<lparr>mgr := m3\<rparr>,
                      Inr (if nxt \<noteq> None then Some (m_currentIndex m3) else None))))
         else (w2, Inr None))"

text \<open>
  \<^verbatim>\<open>sendMessage\<close> and \<^verbatim>\<open>sendMessageStream\<close>: the \<^verbatim>\<open>for\<close> loop over the attempts, entered
  with \<open>attempt\<close>, and the recursive call of the fallback branch, which starts a new
  loop with its own \<^verbatim>\<open>maxAttempts\<close>. The environment \<open>env\<close> gives what the \<open>n\<close>-th
  account attempt meets.
\<close>

function sendLoop ::
  "config \<Rightarrow> (nat \<Rightarrow> attemptEnv) \<Rightarrow> string option \<Rightarrow> bool \<Rightarrow> nat \<Rightarrow> nat \<Rightarrow> world
     \<Rightarrow> world \<times> (failure + string)" where
  "sendLoop cfg env model fallbackEnabled maxAttempts attempt w =
     (if \<not> attempt < maxAttempts then (w, Inl MaxRetriesExceeded)
      else
        (case obtainAccount cfg model w of
           (w1, Inl err) \<Rightarrow> (w1, Inl err)
         | (w1, Inr None) \<Rightarrow>
             if fallbackEnabled \<and> truthyStr (getFallbackModel cfg model) then
               sendLoop cfg env (getFallbackModel cfg model) False
                 (max (maxRetries cfg) (length (m_accounts (mgr w1)) + 1)) 0
                 (w1\<lparr>fallbacks := fallbacks w1 @ [propKey (getFallbackModel cfg model)]\<rparr>)
             else (w1, Inl NoAccountsAvailable)
         | (w1, Inr (Some i)) \<Rightarrow>
             (case tryAccount cfg (env (ticks w1)) model i (w1\<lparr>ticks := Suc (ticks w1)\<rparr>) of
                (w2, Success response) \<Rightarrow> (w2, Inr response)
              | (w2, FellThrough) \<Rightarrow>
                  sendLoop cfg env model fallbackEnabled maxAttempts (Suc attempt) w2
              | (w2, Raised message) \<Rightarrow>
                  (case handleError cfg model message w2 of
                     (w3, Failed m) \<Rightarrow> (w3, Inl (Thrown m))
                   | (w3, NextAttempt) \<Rightarrow>
                       sendLoop cfg env model fallbackEnabled maxAttempts (Suc attempt) w3))))"
  by pat_completeness auto
termination
  by (relation "measures [\<lambda>(cfg, env, model, fallbackEnabled, maxAttempts, attempt, w).
                            if fallbackEnabled then 1 else 0,
                          \<lambda>(cfg, env, model, fallbackEnabled, maxAttempts, attempt, w).
                            maxAttempts - attempt]") auto

declare sendLoop.simps [simp del]

definition sendMessage ::
  "config \<Rightarrow> (nat \<Rightarrow> attemptEnv) \<Rightarrow> string option \<Rightarrow> bool \<Rightarrow> world
     \<Rightarrow> world \<times> (failure + string)" where
  "sendMessage cfg env model fallbackEnabled w =
     sendLoop cfg env model fallbackEnabled
       (max (maxRetries cfg) (length (m_accounts (mgr w)) + 1)) 0 w"

section \<open>Notions used to state the properties\<close>

text \<open>The account at position \<open>j\<close> exists and is usable for the model.\<close>

definition usableAt :: "account list \<Rightarrow> string option \<Rightarrow> int \<Rightarrow> nat \<Rightarrow> bool" where
  "usableAt accounts modelId now j = isAccountUsable (nthOpt accounts j) modelId now"

text \<open>The account list once \<^verbatim>\<open>clearExpiredLimits\<close> has run on it.\<close>

definition cleared :: "account list \<Rightarrow> int \<Rightarrow> account list" where
  "cleared accounts now = fst (clearExpiredLimits accounts now)"

text \<open>
  The account has an active limit for the model: a record with \<^verbatim>\<open>isRateLimited\<close> whose
  \<^verbatim>\<open>resetTime\<close> lies after \<open>now\<close>.
\<close>

definition activeFor :: "account \<Rightarrow> string option \<Rightarrow> int \<Rightarrow> bool" where
  "activeFor acc modelId now =
     (case modelLimit acc modelId of
        None \<Rightarrow> False
      | Some l \<Rightarrow> isRateLimited l \<and> toNumber (resetTime l) > now)"

text \<open>
  The account is not invalid and its limit for the model is active with a remaining
  time \<open>resetTime - now\<close> in \<open>(0, maxWait]\<close>.
\<close>

definition waitable :: "int \<Rightarrow> account \<Rightarrow> string option \<Rightarrow> int \<Rightarrow> bool" where
  "waitable maxWait acc modelId now =
     (\<not> isInvalid acc \<and>
      (\<exists>l t. modelLimit acc modelId = Some l \<and> isRateLimited l \<and> resetTime l = Some t
             \<and> 0 < t - now \<and> t - now \<le> maxWait))"

text \<open>
  The remaining wait that an account contributes for the model: \<open>resetTime - now\<close> of
  its record for the model, when that record has \<^verbatim>\<open>isRateLimited\<close> set and the
  difference is positive.
\<close>

definition remainingWait :: "account \<Rightarrow> string option \<Rightarrow> int \<Rightarrow> int option" where
  "remainingWait acc modelId now =
     (case modelLimit acc modelId of
        None \<Rightarrow> None
      | Some l \<Rightarrow>
          if isRateLimited l then
            (case resetTime l of
               None \<Rightarrow> None
             | Some t \<Rightarrow> if 0 < t - now then Some (t - now) else None)
          else None)"

text \<open>
  The remaining wait of the account's record for the model, whatever its flag:
  \<open>resetTime - now\<close> when that is positive.
\<close>

definition recordWait :: "account \<Rightarrow> string option \<Rightarrow> int \<Rightarrow> int option" where
  "recordWait acc modelId now =
     (case modelLimit acc modelId of
        None \<Rightarrow> None
      | Some l \<Rightarrow>
          (case resetTime l of
             None \<Rightarrow> None
           | Some t \<Rightarrow> if 0 < t - now then Some (t - now) else None))"

text \<open>
  The shape of the records that the ledger writes: \<^verbatim>\<open>markRateLimited\<close> writes
  \<^verbatim>\<open>{isRateLimited: true, resetTime}\<close>, \<^verbatim>\<open>clearExpiredLimits\<close> and \<^verbatim>\<open>resetAllRateLimits\<close> write
  \<^verbatim>\<open>{isRateLimited: false, resetTime: null}\<close>. So a record that is not flagged carries no
  instant.
\<close>

definition ledgerRecord :: "limit \<Rightarrow> bool" where
  "ledgerRecord l = (isRateLimited l \<or> resetTime l = None)"

definition ledgerAccount :: "account \<Rightarrow> bool" where
  "ledgerAccount acc =
     (case modelRateLimits acc of
        None \<Rightarrow> True
      | Some m \<Rightarrow> list_all (\<lambda>(k, l). ledgerRecord l) m)"

definition ledgerShaped :: "account list \<Rightarrow> bool" where
  "ledgerShaped accounts = list_all ledgerAccount accounts"

text \<open>One round of the minimum search: the smaller of the minimum so far and a new wait.\<close>

definition minStep :: "int option \<Rightarrow> int option \<Rightarrow> int option" where
  "minStep mw r = (case r of None \<Rightarrow> mw
                   | Some w \<Rightarrow> (case mw of None \<Rightarrow> Some w | Some v \<Rightarrow> if w < v then Some w else Some v))"

text \<open>The reply is a response with status 429.\<close>

definition is429 :: "reply \<Rightarrow> bool" where
  "is429 r = (case r of Response status errorText resetMs handled \<Rightarrow> status = 429 | _ \<Rightarrow> False)"

text \<open>The reply is a response with a 2xx status whose body the parser handles without an exception.\<close>

definition isHandled2xx :: "reply \<Rightarrow> bool" where
  "isHandled2xx r =
     (case r of
        Response status errorText resetMs (Inr response) \<Rightarrow> 200 \<le> status \<and> status \<le> 299
      | _ \<Rightarrow> False)"

text \<open>
  The reset times that \<^verbatim>\<open>parseResetTime\<close> found in the replies, in milliseconds, leaving
  out the replies where it found none (\<^verbatim>\<open>null\<close>) and those where it found 0.
\<close>

definition parsedResets :: "reply list \<Rightarrow> int list" where
  "parsedResets rs =
     concat (map (\<lambda>r. case r of
                          Response status errorText (Some ms) handled \<Rightarrow> if ms \<noteq> 0 then [ms] else []
                        | _ \<Rightarrow> []) rs)"

text \<open>\<^verbatim>\<open>settings.cooldownDurationMs || DEFAULT_COOLDOWN_MS\<close>\<close>

definition fallbackCooldown :: "int \<Rightarrow> settings \<Rightarrow> int" where
  "fallbackCooldown dflt st =
     (case cooldownDurationMs st of None \<Rightarrow> dflt | Some c \<Rightarrow> if c \<noteq> 0 then c else dflt)"

text \<open>The manager's account list after the \<^verbatim>\<open>try\<close> block of an attempt.\<close>

definition accountsAfter ::
  "config \<Rightarrow> attemptEnv \<Rightarrow> string option \<Rightarrow> nat \<Rightarrow> world \<Rightarrow> account list" where
  "accountsAfter cfg ev model i w0 = m_accounts (mgr (fst (tryAccount cfg ev model i w0)))"

text \<open>The smaller reset time of two, where \<^verbatim>\<open>null\<close> and 0 count as none.\<close>

definition keepMin :: "int option \<Rightarrow> int option \<Rightarrow> int option" where
  "keepMin prev ms =
     (if truthyNum ms \<and> (\<not> truthyNum prev \<or> toNumber ms < toNumber prev) then ms else prev)"

text \<open>What \<^verbatim>\<open>parseResetTime\<close> found in a reply.\<close>

definition resetOf :: "reply \<Rightarrow> int option" where
  "resetOf r = (case r of Response status errorText resetMs handled \<Rightarrow> resetMs | _ \<Rightarrow> None)"

text \<open>The values among reset times that are neither \<^verbatim>\<open>null\<close> nor 0.\<close>

definition truthyVals :: "int option list \<Rightarrow> int list" where
  "truthyVals xs = concat (map (\<lambda>x. case x of Some ms \<Rightarrow> if ms \<noteq> 0 then [ms] else [] | None \<Rightarrow> []) xs)"

subsection \<open>Example accounts\<close>

definition acctFree :: account where
  "acctFree = \<lparr>email = ''a'', source = ''oauth'', refreshToken = ''r'', apiKey = [],
     enabled = True, isInvalid = False, invalidReason = None, invalidAt = None,
     modelRateLimits = None, lastUsed = None\<rparr>"

text \<open>Limited for the model \<^verbatim>\<open>m\<close> until the instant 150.\<close>

definition acctLimited :: account where
  "acctLimited = acctFree\<lparr>email := ''b'',
     modelRateLimits := Some [(''m'', \<lparr>isRateLimited = True, resetTime = Some 150\<rparr>)]\<rparr>"

definition acctInvalid :: account where
  "acctInvalid = acctFree\<lparr>email := ''c'', isInvalid := True\<rparr>"

text \<open>Limited for the model \<^verbatim>\<open>m\<close> until the instant 130.\<close>

definition acctSooner :: account where
  "acctSooner = acctFree\<lparr>email := ''e'',
     modelRateLimits := Some [(''m'', \<lparr>isRateLimited = True, resetTime = Some 130\<rparr>)]\<rparr>"

definition acctSpare :: account where
  "acctSpare = acctFree\<lparr>email := ''f''\<rparr>"

definition acctDisabled :: account where
  "acctDisabled = acctFree\<lparr>email := ''d'', enabled := False\<rparr>"

subsection \<open>Example configuration and states\<close>

text \<open>\<^verbatim>\<open>MODEL_FALLBACK_MAP\<close> of constants.js.\<close>

definition MODEL_FALLBACK_MAP :: "(string \<times> string) list" where
  "MODEL_FALLBACK_MAP =
     [(''gemini-3-pro-high'', ''claude-opus-4-5-thinking''),
      (''gemini-3-pro-low'', ''claude-sonnet-4-5''),
      (''gemini-3-flash'', ''claude-sonnet-4-5-thinking''),
      (''claude-opus-4-5-thinking'', ''gemini-3-pro-high''),
      (''claude-sonnet-4-5-thinking'', ''gemini-3-flash''),
      (''claude-sonnet-4-5'', ''gemini-3-flash'')]"

text \<open>
  A configuration with the defaults of constants.js, a fallback lookup in
  \<^verbatim>\<open>MODEL_FALLBACK_MAP\<close>, and the classifiers of utils/helpers.js.
\<close>

definition cfgEx :: config where
  "cfgEx = \<lparr>maxRetries = 5, maxWaitBeforeError = 120000, defaultCooldown = 10000,
     tokenTtl = 300000,
     getFallbackModel = (\<lambda>m. case m of None \<Rightarrow> None | Some s \<Rightarrow> map_of MODEL_FALLBACK_MAP s),
     isRateLimitError = helperIsRateLimitError, isAuthError = helperIsAuthError,
     streaming = False\<rparr>"

definition mgrEx :: "account list \<Rightarrow> manager" where
  "mgrEx accs = \<lparr>m_accounts = accs, m_currentIndex = 0,
     m_settings = \<lparr>cooldownDurationMs = None\<rparr>, m_tokenCache = Map.empty\<rparr>"

definition worldEx :: "account list \<Rightarrow> world" where
  "worldEx accs = \<lparr>mgr = mgrEx accs, clock = 100, ticks = 0, fallbacks = []\<rparr>"

text \<open>An attempt whose token refresh succeeds and whose endpoints give the replies \<open>rs\<close>.\<close>

definition envEx :: "reply list \<Rightarrow> attemptEnv" where
  "envEx rs = \<lparr>auth = \<lparr>refreshOutcome = Inr ''tok'', databaseOutcome = Inl []\<rparr>,
     prepareError = None, elapsed = 0, replies = rs\<rparr>"

section \<open>Auxiliary facts\<close>

lemma limitOf_clearAccount:
  "limitOf (clearAccount now a) k = map_option (clearLimit now) (limitOf a k)"
  by (auto simp: limitOf_def clearAccount_def map_of_map split: option.splits
      simp: map_of_map[unfolded split_def comp_def] split_def)

lemma modelLimit_clearAccount:
  "modelLimit (clearAccount now a) m = map_option (clearLimit now) (modelLimit a m)"
  by (simp add: modelLimit_def limitOf_clearAccount)

lemma clearAccount_fields [simp]:
  "isInvalid (clearAccount now a) = isInvalid a"
  "enabled (clearAccount now a) = enabled a"
  "email (clearAccount now a) = email a"
  "lastUsed (clearAccount now a) = lastUsed a"
  by (simp_all add: clearAccount_def split: option.splits)

lemma active_clearLimit:
  "(isRateLimited (clearLimit now l) \<and> toNumber (resetTime (clearLimit now l)) > now)
     = (isRateLimited l \<and> toNumber (resetTime l) > now)"
  by (auto simp: clearLimit_def expired_def)

lemma clearLimit_idem: "clearLimit now (clearLimit now l) = clearLimit now l"
  by (simp add: clearLimit_def expired_def)

lemma clearAccount_idem: "clearAccount now (clearAccount now a) = clearAccount now a"
  by (auto simp: clearAccount_def clearLimit_idem split_def comp_def split: option.splits)

lemma usable_clearAccount:
  "isAccountUsable (Some (clearAccount now a)) m now = isAccountUsable (Some a) m now"
  by (cases "modelLimit a m") (simp_all add: isAccountUsable_def modelLimit_clearAccount active_clearLimit)

lemma cleared_map: "cleared accounts now = map (clearAccount now) accounts"
  by (simp add: cleared_def clearExpiredLimits_def)

lemma length_cleared [simp]: "length (cleared accounts now) = length accounts"
  by (simp add: cleared_map)

lemma cleared_Nil [simp]: "(cleared accounts now = []) = (accounts = [])"
  by (simp add: cleared_map)

lemma cleared_idem: "cleared (cleared accounts now) now = cleared accounts now"
  by (simp add: cleared_map clearAccount_idem)

lemma clampIndex_cleared [simp]: "clampIndex (cleared accounts now) i = clampIndex accounts i"
  by (simp add: clampIndex_def)

lemma usableAt_cleared:
  "usableAt (map (clearAccount now) accounts) m now j = usableAt accounts m now j"
  by (simp add: usableAt_def nthOpt_def usable_clearAccount)

lemma available_filter:
  "getAvailableAccounts accounts m now = filter (\<lambda>a. isAccountUsable (Some a) m now) accounts"
  by (simp add: getAvailableAccounts_def isAccountUsable_def)

lemma available_empty:
  "(getAvailableAccounts accounts m now = []) = (\<forall>j<length accounts. \<not> usableAt accounts m now j)"
  by (auto simp: available_filter filter_empty_conv usableAt_def nthOpt_def in_set_conv_nth)
     (metis nth_mem)

lemma scanFrom_None:
  "(scanFrom accounts m now index ofs = None)
     = (\<forall>i \<in> set ofs. \<not> usableAt accounts m now ((index + i) mod length accounts))"
  by (induction ofs) (auto simp: usableAt_def Let_def)

lemma scanFrom_Some:
  "scanFrom accounts m now index ofs = Some idx \<Longrightarrow>
     \<exists>pre i post. ofs = pre @ i # post \<and> idx = (index + i) mod length accounts
        \<and> usableAt accounts m now idx
        \<and> (\<forall>k \<in> set pre. \<not> usableAt accounts m now ((index + k) mod length accounts))"
proof (induction ofs)
  case Nil
  then show ?case by simp
next
  case (Cons i rest)
  show ?case
  proof (cases "usableAt accounts m now ((index + i) mod length accounts)")
    case True
    with Cons.prems have "idx = (index + i) mod length accounts"
      by (simp add: usableAt_def Let_def)
    with True show ?thesis by (intro exI[of _ "[]"] exI[of _ i] exI[of _ rest]) simp
  next
    case False
    with Cons.prems have "scanFrom accounts m now index rest = Some idx"
      by (simp add: usableAt_def Let_def)
    from Cons.IH[OF this] obtain pre j post where
      h: "rest = pre @ j # post" "idx = (index + j) mod length accounts"
         "usableAt accounts m now idx"
         "\<forall>k \<in> set pre. \<not> usableAt accounts m now ((index + k) mod length accounts)"
      by blast
    show ?thesis
      by (intro exI[of _ "i # pre"] exI[of _ j] exI[of _ post]) (use h False in simp)
  qed
qed

lemma upt_split_offsets:
  assumes "[1..<Suc n] = pre @ i # post"
  shows "pre = [1..<i] \<and> 1 \<le> i \<and> i \<le> n"
proof -
  have len: "length pre < n" using arg_cong[OF assms, of length] by (simp del: upt_Suc)
  have "i = [1..<Suc n] ! length pre" using assms by (simp del: upt_Suc)
  also have "\<dots> = 1 + length pre" using len by (simp del: upt_Suc)
  finally have i: "i = Suc (length pre)" by simp
  have "pre = take (length pre) [1..<Suc n]" using assms by (simp del: upt_Suc)
  also have "\<dots> = [1..<i]" using len i by (simp add: take_upt del: upt_Suc)
  finally show ?thesis using i len by simp
qed

lemma cover_residue:
  assumes "index < (n::nat)" "j < n"
  shows "\<exists>i. 1 \<le> i \<and> i \<le> n \<and> (index + i) mod n = j"
proof (cases "index < j")
  case True
  then show ?thesis using assms by (intro exI[of _ "j - index"]) auto
next
  case False
  then show ?thesis using assms by (intro exI[of _ "n + j - index"]) (auto simp: mod_if)
qed

lemma pickNext_none:
  assumes "\<forall>j<length accounts. \<not> usableAt (cleared accounts now) m now j"
  shows "pickNext accounts currentIndex m now =
           (cleared accounts now, \<lparr>account = None, newIndex = currentIndex\<rparr>)"
proof -
  have "getAvailableAccounts (cleared accounts now) m now = []"
    using assms by (simp add: available_empty)
  then show ?thesis by (simp add: pickNext_def cleared_def[symmetric] Let_def)
qed

lemma pickNext_some:
  assumes ex: "\<exists>j<length accounts. usableAt (cleared accounts now) m now j"
  shows "\<exists>i. 1 \<le> i \<and> i \<le> length accounts \<and>
           (\<forall>k. 1 \<le> k \<and> k < i \<longrightarrow>
              \<not> usableAt (cleared accounts now) m now ((clampIndex accounts currentIndex + k) mod length accounts)) \<and>
           usableAt (cleared accounts now) m now ((clampIndex accounts currentIndex + i) mod length accounts) \<and>
           pickNext accounts currentIndex m now =
             ((cleared accounts now)[(clampIndex accounts currentIndex + i) mod length accounts :=
                 touch now (cleared accounts now ! ((clampIndex accounts currentIndex + i) mod length accounts))],
              \<lparr>account = Some (touch now
                   (cleared accounts now ! ((clampIndex accounts currentIndex + i) mod length accounts))),
               newIndex = (clampIndex accounts currentIndex + i) mod length accounts\<rparr>)"
proof -
  let ?c = "cleared accounts now"
  let ?n = "length accounts"
  let ?s = "clampIndex accounts currentIndex"
  from ex obtain j where j: "j < ?n" "usableAt ?c m now j" by blast
  then have npos: "0 < ?n" by (cases accounts) simp_all
  have s: "?s < ?n" using npos by (simp add: clampIndex_def)
  have avail: "getAvailableAccounts ?c m now \<noteq> []"
    using j by (auto simp: available_empty)
  from cover_residue[OF s j(1)] obtain i0 where
    i0: "1 \<le> i0" "i0 \<le> ?n" "(?s + i0) mod ?n = j" by blast
  have "scanFrom ?c m now ?s [1..<Suc ?n] \<noteq> None"
    using i0 j(2) by (auto simp: scanFrom_None simp del: upt_Suc)
  then obtain idx where sc: "scanFrom ?c m now ?s [1..<Suc ?n] = Some idx" by blast
  from scanFrom_Some[OF sc] obtain pre i post where
    h: "[1..<Suc ?n] = pre @ i # post" "idx = (?s + i) mod ?n" "usableAt ?c m now idx"
       "\<forall>k \<in> set pre. \<not> usableAt ?c m now ((?s + k) mod ?n)"
    by auto
  from upt_split_offsets[OF h(1)] have p: "pre = [1..<i]" "1 \<le> i" "i \<le> ?n" by simp_all
  have first: "\<forall>k. 1 \<le> k \<and> k < i \<longrightarrow> \<not> usableAt ?c m now ((?s + k) mod ?n)"
    using h(4) p(1) by simp
  have res: "pickNext accounts currentIndex m now =
          (?c[idx := touch now (?c ! idx)], \<lparr>account = Some (touch now (?c ! idx)), newIndex = idx\<rparr>)"
    using avail sc by (simp add: pickNext_def cleared_def[symmetric] Let_def del: upt_Suc)
  show ?thesis
    by (rule exI[of _ i]) (use p first h(2,3) res in simp)
qed


lemma pickNext_cleared:
  "pickNext (cleared accounts now) i m now = pickNext accounts i m now"
  using cleared_idem[of accounts now]
  by (simp add: pickNext_def cleared_def)

lemma nthOpt_cleared:
  "nthOpt (cleared accounts now) j = map_option (clearAccount now) (nthOpt accounts j)"
  by (simp add: nthOpt_def cleared_map)

lemma usableAt_cleared':
  "usableAt (cleared accounts now) m now j = usableAt accounts m now j"
  by (simp add: cleared_map usableAt_cleared)

lemma sticky_hit:
  assumes "usableAt accounts m now (clampIndex accounts ci)"
  shows "getCurrentStickyAccount accounts ci m now =
           ((cleared accounts now)[clampIndex accounts ci :=
               touch now (cleared accounts now ! clampIndex accounts ci)],
            \<lparr>account = Some (touch now (cleared accounts now ! clampIndex accounts ci)),
             newIndex = clampIndex accounts ci\<rparr>)"
proof -
  have ne: "accounts \<noteq> []" using assms by (auto simp: usableAt_def nthOpt_def isAccountUsable_def)
  have "isAccountUsable (nthOpt (cleared accounts now) (clampIndex accounts ci)) m now"
    using assms usableAt_cleared'[of accounts now m "clampIndex accounts ci"]
    by (simp add: usableAt_def)
  then show ?thesis using ne
    by (simp add: getCurrentStickyAccount_def cleared_def[symmetric] Let_def)
qed

lemma sticky_miss:
  assumes "\<not> usableAt accounts m now (clampIndex accounts ci)"
  shows "fst (getCurrentStickyAccount accounts ci m now) = cleared accounts now"
    and "account (snd (getCurrentStickyAccount accounts ci m now)) = None"
proof -
  have "\<not> isAccountUsable (nthOpt (cleared accounts now) (clampIndex accounts ci)) m now"
    using assms usableAt_cleared'[of accounts now m "clampIndex accounts ci"]
    by (simp add: usableAt_def)
  then show "fst (getCurrentStickyAccount accounts ci m now) = cleared accounts now"
    and "account (snd (getCurrentStickyAccount accounts ci m now)) = None"
    by (simp_all add: getCurrentStickyAccount_def cleared_def[symmetric] Let_def)
qed

lemma waitMs_clearLimit:
  assumes "0 \<le> now"
  shows "(if isRateLimited (clearLimit now l) \<and> truthyNum (resetTime (clearLimit now l))
          then toNumber (resetTime (clearLimit now l)) - now else 0) > 0
         \<longleftrightarrow> (isRateLimited l \<and> (\<exists>t. resetTime l = Some t \<and> 0 < t - now))"
  using assms
  by (cases "resetTime l") (auto simp: clearLimit_def expired_def truthyNum_def toNumber_def)

lemma waitMs_clearLimit_val:
  assumes "isRateLimited l" "resetTime l = Some t" "0 < t - now" "0 \<le> now"
  shows "(if isRateLimited (clearLimit now l) \<and> truthyNum (resetTime (clearLimit now l))
          then toNumber (resetTime (clearLimit now l)) - now else 0) = t - now"
  using assms by (auto simp: clearLimit_def expired_def truthyNum_def toNumber_def)

lemma shouldWait_iff:
  assumes "0 \<le> now" "accounts \<noteq> []"
  shows "shouldWait (shouldWaitForCurrentAccount maxWait (cleared accounts now) ci m now)
           = waitable maxWait (accounts ! clampIndex accounts ci) m now"
proof -
  let ?s = "clampIndex accounts ci"
  let ?a = "accounts ! ?s"
  have s: "?s < length accounts" using assms(2) by (simp add: clampIndex_def)
  have nth: "nthOpt (cleared accounts now) ?s = Some (clearAccount now ?a)"
    using s by (simp add: nthOpt_cleared) (simp add: nthOpt_def)
  show ?thesis
  proof (cases "modelLimit ?a m")
    case None
    then show ?thesis using assms(2) nth
      by (simp add: shouldWaitForCurrentAccount_def waitable_def modelLimit_clearAccount Let_def)
  next
    case (Some l)
    show ?thesis
    proof (cases "isRateLimited l \<and> (\<exists>t. resetTime l = Some t \<and> 0 < t - now)")
      case True
      then obtain t where t: "isRateLimited l" "resetTime l = Some t" "0 < t - now" by blast
      from waitMs_clearLimit_val[OF t assms(1)] show ?thesis
        using assms(2) nth Some t
        by (simp add: shouldWaitForCurrentAccount_def waitable_def modelLimit_clearAccount Let_def)
    next
      case False
      with waitMs_clearLimit[OF assms(1), of l] have
        "\<not> (if isRateLimited (clearLimit now l) \<and> truthyNum (resetTime (clearLimit now l))
          then toNumber (resetTime (clearLimit now l)) - now else 0) > 0" by blast
      then show ?thesis using assms(2) nth Some False
        by (auto simp: shouldWaitForCurrentAccount_def waitable_def modelLimit_clearAccount Let_def)
    qed
  qed
qed

lemma shouldWait_val:
  assumes "0 \<le> now" "accounts \<noteq> []"
    and "modelLimit (accounts ! clampIndex accounts ci) m = Some l" "resetTime l = Some t"
    and "shouldWait (shouldWaitForCurrentAccount maxWait (cleared accounts now) ci m now)"
  shows "waitFor (shouldWaitForCurrentAccount maxWait (cleared accounts now) ci m now) = t - now"
proof -
  let ?s = "clampIndex accounts ci"
  let ?a = "accounts ! ?s"
  have s: "?s < length accounts" using assms(2) by (simp add: clampIndex_def)
  have nth: "nthOpt (cleared accounts now) ?s = Some (clearAccount now ?a)"
    using s by (simp add: nthOpt_cleared) (simp add: nthOpt_def)
  from shouldWait_iff[OF assms(1,2)] assms(3,4,5)
  have w: "isRateLimited l" "0 < t - now" by (auto simp: waitable_def)
  from waitMs_clearLimit_val[OF w(1) assms(4) w(2) assms(1)] show ?thesis
    using assms(2,3,5) nth
    by (simp add: shouldWaitForCurrentAccount_def modelLimit_clearAccount Let_def split: if_splits)
qed


lemma pickSticky_hit:
  assumes "usableAt accounts m now (clampIndex accounts ci)"
  shows "pickStickyAccount maxWait accounts ci m now =
           ((cleared accounts now)[clampIndex accounts ci :=
               touch now (cleared accounts now ! clampIndex accounts ci)],
            \<lparr>stickyAccount = Some (touch now (cleared accounts now ! clampIndex accounts ci)),
             waitMs = 0, stickyIndex = clampIndex accounts ci\<rparr>)"
  by (simp add: pickStickyAccount_def sticky_hit[OF assms])

lemma pickSticky_failover:
  assumes miss: "\<not> usableAt accounts m now (clampIndex accounts ci)"
    and ex: "\<exists>j<length accounts. usableAt accounts m now j"
  shows "pickStickyAccount maxWait accounts ci m now =
           (fst (pickNext accounts ci m now),
            \<lparr>stickyAccount = account (snd (pickNext accounts ci m now)), waitMs = 0,
             stickyIndex = newIndex (snd (pickNext accounts ci m now))\<rparr>)"
    and "account (snd (pickNext accounts ci m now)) \<noteq> None"
proof -
  have ex': "\<exists>j<length accounts. usableAt (cleared accounts now) m now j"
    using ex by (simp add: usableAt_cleared')
  from pickNext_some[OF ex', of ci] show some: "account (snd (pickNext accounts ci m now)) \<noteq> None"
    by auto
  have avail: "getAvailableAccounts (cleared accounts now) m now \<noteq> []"
    using ex' by (auto simp: available_empty)
  obtain a1 r1 where g: "getCurrentStickyAccount accounts ci m now = (a1, r1)" by force
  with sticky_miss[OF miss] have a1: "a1 = cleared accounts now" "account r1 = None" by simp_all
  obtain a2 r2 where p: "pickNext accounts ci m now = (a2, r2)" by force
  show "pickStickyAccount maxWait accounts ci m now =
           (fst (pickNext accounts ci m now),
            \<lparr>stickyAccount = account (snd (pickNext accounts ci m now)), waitMs = 0,
             stickyIndex = newIndex (snd (pickNext accounts ci m now))\<rparr>)"
    using some avail
    by (simp add: pickStickyAccount_def g a1 pickNext_cleared p)
qed

lemma pickSticky_exhausted:
  assumes none: "\<forall>j<length accounts. \<not> usableAt accounts m now j"
  shows "pickStickyAccount maxWait accounts ci m now =
           (let w = shouldWaitForCurrentAccount maxWait (cleared accounts now) ci m now in
            (cleared accounts now,
             \<lparr>stickyAccount = None, waitMs = (if shouldWait w then waitFor w else 0),
              stickyIndex = ci\<rparr>))"
proof -
  have miss: "\<not> usableAt accounts m now (clampIndex accounts ci)"
  proof (cases "accounts = []")
    case True
    then show ?thesis by (simp add: usableAt_def nthOpt_def isAccountUsable_def)
  next
    case False
    then have "clampIndex accounts ci < length accounts" by (simp add: clampIndex_def)
    then show ?thesis using none by blast
  qed
  have none': "\<forall>j<length accounts. \<not> usableAt (cleared accounts now) m now j"
    using none by (simp add: usableAt_cleared')
  have avail: "getAvailableAccounts (cleared accounts now) m now = []"
    using none' by (simp add: available_empty)
  obtain a1 r1 where g: "getCurrentStickyAccount accounts ci m now = (a1, r1)" by force
  with sticky_miss[OF miss] have a1: "a1 = cleared accounts now" "account r1 = None" by simp_all
  show ?thesis
    by (simp add: pickStickyAccount_def g a1 avail pickNext_cleared pickNext_none[OF none'] Let_def)
qed

section \<open>Claims\<close>

lemmas ex_defs = acctSpare_def acctFree_def acctLimited_def acctInvalid_def acctDisabled_def acctSooner_def
lemmas ev_defs = getAvailableAccounts_def isAllRateLimited_def modelLimit_def limitOf_def
  truthyStr_def propKey_def toNumber_def truthyNum_def usableAt_def nthOpt_def isAccountUsable_def
  clampIndex_def cleared_def clearExpiredLimits_def clearAccount_def clearLimit_def expired_def
  countExpired_def touch_def activeFor_def

lemmas sel_defs = pickNext_def pickStickyAccount_def getCurrentStickyAccount_def
      shouldWaitForCurrentAccount_def Let_def

lemmas wait_defs = getMinWaitTimeMs_def remainingWait_def Let_def

lemmas str_defs = isNetworkError_def toLowerCase_def lowerChar_def Let_def

lemmas disp_defs = obtainAccount_def mgr_pickStickyAccount_def mgr_clearExpiredLimits_def
  mgr_getCurrentStickyAccount_def mgr_pickNext_def sleep_def worldEx_def mgrEx_def cfgEx_def
  minWaitLoop.simps

lemmas try_defs = tryAccount_def accountsAfter_def mgr_getTokenForAccount_def getTokenForAccount_def
  keep429_def mgr_markRateLimited_def markRateLimited_def setLimit_def cooldownMs_def
  worldEx_def mgrEx_def cfgEx_def envEx_def helperIsRateLimitError_def helperIsAuthError_def

text \<open>
  C9. For every account list and every model argument, each account of the list with
  \<^verbatim>\<open>isInvalid = true\<close> is absent from the list \<^verbatim>\<open>getAvailableAccounts\<close> returns.
\<close>

theorem getAvailableAccounts_excludes_invalid:
  "\<forall>acc \<in> set accounts. isInvalid acc \<longrightarrow> acc \<notin> set (getAvailableAccounts accounts modelId now)"
  by (auto simp: getAvailableAccounts_def split: if_splits)

theorem getAvailableAccounts_excludes_invalid_witness:
  "acctInvalid \<in> set [acctFree, acctInvalid] \<and> isInvalid acctInvalid
     \<and> acctInvalid \<notin> set (getAvailableAccounts [acctFree, acctInvalid] (Some ''m'') 100)
     \<and> getAvailableAccounts [acctFree, acctInvalid] (Some ''m'') 100 = [acctFree]"
proof -
  have h: "acctInvalid \<in> set [acctFree, acctInvalid]" "isInvalid acctInvalid"
    by (simp_all add: ex_defs)
  have "acctInvalid \<notin> set (getAvailableAccounts [acctFree, acctInvalid] (Some ''m'') 100)"
    using getAvailableAccounts_excludes_invalid[of "[acctFree, acctInvalid]" "Some ''m''" 100] h
    by blast
  moreover have "getAvailableAccounts [acctFree, acctInvalid] (Some ''m'') 100 = [acctFree]"
    by (simp add: ev_defs ex_defs)
  ultimately show ?thesis using h by simp
qed

text \<open>
  C10. An account with \<^verbatim>\<open>enabled = false\<close> that is neither invalid nor actively
  rate-limited for the model makes \<^verbatim>\<open>isAllRateLimited\<close> return false, although
  \<^verbatim>\<open>getAvailableAccounts\<close> leaves that account out. When every account of a non-empty
  list is such an account, \<^verbatim>\<open>isAllRateLimited\<close> is false and \<^verbatim>\<open>getAvailableAccounts\<close>
  is empty: the two views disagree.
\<close>

theorem disabled_account_views_disagree:
  "(acc \<in> set accounts \<and> \<not> enabled acc \<and> \<not> isInvalid acc \<and> \<not> activeFor acc m now
      \<longrightarrow> \<not> isAllRateLimited accounts m now \<and> acc \<notin> set (getAvailableAccounts accounts m now))
   \<and> (accounts \<noteq> [] \<and> (\<forall>a \<in> set accounts. \<not> enabled a \<and> \<not> isInvalid a \<and> \<not> activeFor a m now)
      \<longrightarrow> \<not> isAllRateLimited accounts m now \<and> getAvailableAccounts accounts m now = [])"
proof -
  have one: "\<not> isAllRateLimited accounts m now \<and> acc \<notin> set (getAvailableAccounts accounts m now)"
    if "acc \<in> set accounts" "\<not> enabled acc" "\<not> isInvalid acc" "\<not> activeFor acc m now" for acc
  proof -
    have ne: "accounts \<noteq> []" using that(1) by auto
    have "\<not> isAllRateLimited accounts m now"
    proof (cases "truthyStr m")
      case False
      then show ?thesis using ne by (simp add: isAllRateLimited_def)
    next
      case True
      then have "\<not> (if isInvalid acc then True
             else (case limitOf acc (propKey m) of
                     None \<Rightarrow> False
                   | Some l \<Rightarrow> isRateLimited l \<and> toNumber (resetTime l) > now))"
        using that(3,4) by (simp add: activeFor_def modelLimit_def split: option.splits)
      then have "\<not> list_all (\<lambda>acc.
             if isInvalid acc then True
             else (case limitOf acc (propKey m) of
                     None \<Rightarrow> False
                   | Some l \<Rightarrow> isRateLimited l \<and> toNumber (resetTime l) > now)) accounts"
        using that(1) unfolding list_all_iff by blast
      then show ?thesis using True ne
        by (simp add: isAllRateLimited_def)
    qed
    moreover have "acc \<notin> set (getAvailableAccounts accounts m now)"
      using that(2) by (simp add: getAvailableAccounts_def)
    ultimately show ?thesis by simp
  qed
  have all: "\<not> isAllRateLimited accounts m now \<and> getAvailableAccounts accounts m now = []"
    if ne: "accounts \<noteq> []"
      and d: "\<forall>a \<in> set accounts. \<not> enabled a \<and> \<not> isInvalid a \<and> \<not> activeFor a m now"
  proof -
    from ne obtain a where a: "a \<in> set accounts" by (cases accounts) auto
    with d one[of a] have "\<not> isAllRateLimited accounts m now" by blast
    moreover have "getAvailableAccounts accounts m now = []"
      using d by (auto simp: getAvailableAccounts_def filter_empty_conv)
    ultimately show ?thesis by simp
  qed
  show ?thesis using one all by blast
qed

theorem disabled_account_views_disagree_witness:
  "acctDisabled \<in> set [acctLimited, acctDisabled] \<and> \<not> enabled acctDisabled
     \<and> \<not> isInvalid acctDisabled \<and> \<not> activeFor acctDisabled (Some ''m'') 100
     \<and> \<not> isAllRateLimited [acctLimited, acctDisabled] (Some ''m'') 100
     \<and> acctDisabled \<notin> set (getAvailableAccounts [acctLimited, acctDisabled] (Some ''m'') 100)
     \<and> [acctDisabled] \<noteq> [] \<and> set [acctDisabled] = {acctDisabled}
     \<and> \<not> isAllRateLimited [acctDisabled] (Some ''m'') 100
     \<and> getAvailableAccounts [acctDisabled] (Some ''m'') 100 = []"
proof -
  have h1: "acctDisabled \<in> set [acctLimited, acctDisabled] \<and> \<not> enabled acctDisabled
     \<and> \<not> isInvalid acctDisabled \<and> \<not> activeFor acctDisabled (Some ''m'') 100"
    by (simp add: ex_defs ev_defs)
  have h2: "[acctDisabled] \<noteq> []
     \<and> (\<forall>a \<in> set [acctDisabled]. \<not> enabled a \<and> \<not> isInvalid a \<and> \<not> activeFor a (Some ''m'') 100)"
    by (simp add: ex_defs ev_defs)
  from disabled_account_views_disagree[of acctDisabled "[acctLimited, acctDisabled]" "Some ''m''" 100]
    h1
  have c1: "\<not> isAllRateLimited [acctLimited, acctDisabled] (Some ''m'') 100
     \<and> acctDisabled \<notin> set (getAvailableAccounts [acctLimited, acctDisabled] (Some ''m'') 100)"
    by blast
  from disabled_account_views_disagree[of acctDisabled "[acctDisabled]" "Some ''m''" 100] h2
  have c2: "\<not> isAllRateLimited [acctDisabled] (Some ''m'') 100
     \<and> getAvailableAccounts [acctDisabled] (Some ''m'') 100 = []"
    by blast
  have h3: "[acctDisabled] \<noteq> [] \<and> set [acctDisabled] = {acctDisabled}" by simp
  show ?thesis using h1 h3 c1 c2 by blast
qed


text \<open>
  What \<^verbatim>\<open>clearExpiredLimits\<close> does to one record and to one account, written out.
\<close>

lemma clearLimit_explicit:
  "clearLimit now l =
     (if isRateLimited l \<and> (case resetTime l of None \<Rightarrow> 0 | Some t \<Rightarrow> t) \<le> now
      then \<lparr>isRateLimited = False, resetTime = None\<rparr> else l)"
  by (cases l) (simp add: clearLimit_def expired_def toNumber_def)

lemma clearAccount_explicit:
  "clearAccount now acc =
     acc\<lparr>modelRateLimits :=
       map_option (map (\<lambda>(k, l). (k,
           if isRateLimited l \<and> (case resetTime l of None \<Rightarrow> 0 | Some t \<Rightarrow> t) \<le> now
           then \<lparr>isRateLimited = False, resetTime = None\<rparr> else l)))
         (modelRateLimits acc)\<rparr>"
  by (cases "modelRateLimits acc") (simp_all add: clearAccount_def clearLimit_explicit)

text \<open>
  C8, as amended. \<^verbatim>\<open>pickNext\<close> first clears the expired rate-limit records: in the
  list it works on and returns, every record that is flagged \<^verbatim>\<open>isRateLimited\<close> with
  \<^verbatim>\<open>resetTime \<le> now\<close> (a \<^verbatim>\<open>null\<close> reset time counting as 0) has become
  \<^verbatim>\<open>{isRateLimited: false, resetTime: null}\<close>, and nothing else has changed. Then, with
  \<open>N\<close> the length of the list and \<open>start\<close> the current index when that is below
  \<open>N\<close> and 0 otherwise, it scans the positions \<open>(start + 1) mod N\<close>,
  \<open>(start + 2) mod N\<close>, \<dots>, \<open>(start + N) mod N = start\<close> in that order. When some
  account is usable, the result is the first usable account on that scan, with
  \<^verbatim>\<open>lastUsed = now\<close> written to it in the list, and its position as the new index. When
  no account is usable the result is \<^verbatim>\<open>null\<close> and the index comes back as it was given.
\<close>

theorem pickNext_round_robin:
  assumes "start = (if currentIndex < length accounts then currentIndex else 0)"
  shows
  "cleared accounts now =
     map (\<lambda>acc. acc\<lparr>modelRateLimits :=
            map_option (map (\<lambda>(k, l). (k,
                if isRateLimited l \<and> (case resetTime l of None \<Rightarrow> 0 | Some t \<Rightarrow> t) \<le> now
                then \<lparr>isRateLimited = False, resetTime = None\<rparr> else l)))
              (modelRateLimits acc)\<rparr>) accounts
   \<and> ((\<exists>j<length accounts. usableAt (cleared accounts now) m now j) \<longrightarrow>
      (\<exists>i. 1 \<le> i \<and> i \<le> length accounts \<and>
           (\<forall>k. 1 \<le> k \<and> k < i \<longrightarrow>
              \<not> usableAt (cleared accounts now) m now ((start + k) mod length accounts)) \<and>
           usableAt (cleared accounts now) m now ((start + i) mod length accounts) \<and>
           pickNext accounts currentIndex m now =
             ((cleared accounts now)[(start + i) mod length accounts :=
                 (cleared accounts now ! ((start + i) mod length accounts))
                   \<lparr>lastUsed := Some now\<rparr>],
              \<lparr>account = Some ((cleared accounts now ! ((start + i) mod length accounts))
                   \<lparr>lastUsed := Some now\<rparr>),
               newIndex = (start + i) mod length accounts\<rparr>)))
   \<and> ((\<forall>j<length accounts. \<not> usableAt (cleared accounts now) m now j) \<longrightarrow>
        pickNext accounts currentIndex m now =
          (cleared accounts now, \<lparr>account = None, newIndex = currentIndex\<rparr>))"
proof -
  have st: "start = clampIndex accounts currentIndex"
    using assms by (simp add: clampIndex_def)
  have c: "cleared accounts now =
     map (\<lambda>acc. acc\<lparr>modelRateLimits :=
            map_option (map (\<lambda>(k, l). (k,
                if isRateLimited l \<and> (case resetTime l of None \<Rightarrow> 0 | Some t \<Rightarrow> t) \<le> now
                then \<lparr>isRateLimited = False, resetTime = None\<rparr> else l)))
              (modelRateLimits acc)\<rparr>) accounts"
    unfolding cleared_map by (rule map_cong[OF refl]) (rule clearAccount_explicit)
  show ?thesis
    using c pickNext_some[of accounts now m currentIndex] pickNext_none[of accounts now m currentIndex]
    unfolding touch_def st by blast
qed

theorem pickNext_round_robin_witness:
  "cleared [acctLimited, acctInvalid] 200 =
       [acctLimited\<lparr>modelRateLimits :=
          Some [(''m'', \<lparr>isRateLimited = False, resetTime = None\<rparr>)]\<rparr>, acctInvalid]
   \<and> pickNext [acctLimited, acctInvalid] 0 (Some ''m'') 200 =
       ([acctLimited\<lparr>modelRateLimits :=
            Some [(''m'', \<lparr>isRateLimited = False, resetTime = None\<rparr>)],
            lastUsed := Some 200\<rparr>, acctInvalid],
        \<lparr>account = Some (acctLimited\<lparr>modelRateLimits :=
            Some [(''m'', \<lparr>isRateLimited = False, resetTime = None\<rparr>)],
            lastUsed := Some 200\<rparr>), newIndex = 0\<rparr>)
   \<and> \<not> 7 < length [acctFree, acctSpare, acctInvalid]
   \<and> pickNext [acctFree, acctSpare, acctInvalid] 7 (Some ''m'') 100 =
       ([acctFree, acctSpare\<lparr>lastUsed := Some 100\<rparr>, acctInvalid],
        \<lparr>account = Some (acctSpare\<lparr>lastUsed := Some 100\<rparr>), newIndex = 1\<rparr>)
   \<and> \<not> usableAt (cleared [acctLimited, acctInvalid] 100) (Some ''m'') 100 0
   \<and> \<not> usableAt (cleared [acctLimited, acctInvalid] 100) (Some ''m'') 100 1
   \<and> pickNext [acctLimited, acctInvalid] 1 (Some ''m'') 100 =
       ([acctLimited, acctInvalid], \<lparr>account = None, newIndex = 1\<rparr>)"
proof -
  let ?freed = "acctLimited\<lparr>modelRateLimits :=
          Some [(''m'', \<lparr>isRateLimited = False, resetTime = None\<rparr>)]\<rparr>"
  \<comment> \<open>an expired record: the account at position 0 is freed and returned\<close>
  note A = pickNext_round_robin[where start = 0 and currentIndex = 0
      and accounts = "[acctLimited, acctInvalid]" and now = 200 and m = "Some ''m''"]
  have sA: "(0::nat) = (if 0 < length [acctLimited, acctInvalid] then 0 else 0)" by simp
  have cA: "cleared [acctLimited, acctInvalid] 200 = [?freed, acctInvalid]"
    using conjunct1[OF A[OF sA]] by (simp add: ex_defs)
  have uA0: "usableAt [?freed, acctInvalid] (Some ''m'') 200 0"
    and uA1: "\<not> usableAt [?freed, acctInvalid] (Some ''m'') 200 1"
    by (simp_all add: ev_defs ex_defs)
  have hA: "\<exists>j<length [acctLimited, acctInvalid].
       usableAt (cleared [acctLimited, acctInvalid] 200) (Some ''m'') 200 j"
    unfolding cA using uA0 by (intro exI[of _ 0]) simp
  from mp[OF conjunct1[OF conjunct2[OF A[OF sA]]] hA] obtain i where
    iA0: "1 \<le> i" "i \<le> length [acctLimited, acctInvalid]"
      "usableAt (cleared [acctLimited, acctInvalid] 200) (Some ''m'') 200
         ((0 + i) mod length [acctLimited, acctInvalid])"
      "pickNext [acctLimited, acctInvalid] 0 (Some ''m'') 200 =
         ((cleared [acctLimited, acctInvalid] 200)
            [(0 + i) mod length [acctLimited, acctInvalid] :=
               (cleared [acctLimited, acctInvalid] 200 !
                 ((0 + i) mod length [acctLimited, acctInvalid]))\<lparr>lastUsed := Some 200\<rparr>],
          \<lparr>account = Some ((cleared [acctLimited, acctInvalid] 200 !
                 ((0 + i) mod length [acctLimited, acctInvalid]))\<lparr>lastUsed := Some 200\<rparr>),
           newIndex = (0 + i) mod length [acctLimited, acctInvalid]\<rparr>)"
    by blast
  have lenA: "length [acctLimited, acctInvalid] = 2" by simp
  note iA = iA0[unfolded cA lenA add_0]
  have "i = 1 \<or> i = 2" using iA(1,2) by arith
  then have "i = 2" using iA(3) uA1 by auto
  then have rA: "pickNext [acctLimited, acctInvalid] 0 (Some ''m'') 200 =
       ([?freed\<lparr>lastUsed := Some 200\<rparr>, acctInvalid],
        \<lparr>account = Some (?freed\<lparr>lastUsed := Some 200\<rparr>), newIndex = 0\<rparr>)"
    using iA(4) by simp
  \<comment> \<open>an index beyond the end: the scan starts after position 0\<close>
  note B = pickNext_round_robin[where start = 0 and currentIndex = 7
      and accounts = "[acctFree, acctSpare, acctInvalid]" and now = 100 and m = "Some ''m''"]
  have sB: "(0::nat) = (if 7 < length [acctFree, acctSpare, acctInvalid] then 7 else 0)" by simp
  have cB: "cleared [acctFree, acctSpare, acctInvalid] 100 = [acctFree, acctSpare, acctInvalid]"
    using conjunct1[OF B[OF sB]] by (simp add: ex_defs)
  have uB1: "usableAt [acctFree, acctSpare, acctInvalid] (Some ''m'') 100 1"
    by (simp add: ev_defs ex_defs)
  have hB: "\<exists>j<length [acctFree, acctSpare, acctInvalid].
       usableAt (cleared [acctFree, acctSpare, acctInvalid] 100) (Some ''m'') 100 j"
    unfolding cB using uB1 by (intro exI[of _ 1]) simp
  from mp[OF conjunct1[OF conjunct2[OF B[OF sB]]] hB] obtain j where
    jB0: "1 \<le> j" "j \<le> length [acctFree, acctSpare, acctInvalid]"
      "\<forall>k. 1 \<le> k \<and> k < j \<longrightarrow>
         \<not> usableAt (cleared [acctFree, acctSpare, acctInvalid] 100) (Some ''m'') 100
             ((0 + k) mod length [acctFree, acctSpare, acctInvalid])"
      "pickNext [acctFree, acctSpare, acctInvalid] 7 (Some ''m'') 100 =
         ((cleared [acctFree, acctSpare, acctInvalid] 100)
            [(0 + j) mod length [acctFree, acctSpare, acctInvalid] :=
               (cleared [acctFree, acctSpare, acctInvalid] 100 !
                 ((0 + j) mod length [acctFree, acctSpare, acctInvalid]))\<lparr>lastUsed := Some 100\<rparr>],
          \<lparr>account = Some ((cleared [acctFree, acctSpare, acctInvalid] 100 !
                 ((0 + j) mod length [acctFree, acctSpare, acctInvalid]))\<lparr>lastUsed := Some 100\<rparr>),
           newIndex = (0 + j) mod length [acctFree, acctSpare, acctInvalid]\<rparr>)"
    by blast
  have lenB: "length [acctFree, acctSpare, acctInvalid] = 3" by simp
  note jB = jB0[unfolded cB lenB add_0]
  have "\<not> 1 < j"
  proof
    assume "1 < j"
    with jB(3) have "\<not> usableAt [acctFree, acctSpare, acctInvalid] (Some ''m'') 100 (1 mod 3)"
      by blast
    with uB1 show False by simp
  qed
  with jB(1) have "j = 1" by arith
  then have rB: "pickNext [acctFree, acctSpare, acctInvalid] 7 (Some ''m'') 100 =
       ([acctFree, acctSpare\<lparr>lastUsed := Some 100\<rparr>, acctInvalid],
        \<lparr>account = Some (acctSpare\<lparr>lastUsed := Some 100\<rparr>), newIndex = 1\<rparr>)"
    using jB(4) by simp
  \<comment> \<open>no usable account\<close>
  note C = pickNext_round_robin[where start = 1 and currentIndex = 1
      and accounts = "[acctLimited, acctInvalid]" and now = 100 and m = "Some ''m''"]
  have sC: "(1::nat) = (if 1 < length [acctLimited, acctInvalid] then 1 else 0)" by simp
  have cC: "cleared [acctLimited, acctInvalid] 100 = [acctLimited, acctInvalid]"
    using conjunct1[OF C[OF sC]] by (simp add: ex_defs)
  have hC: "\<forall>j<length [acctLimited, acctInvalid].
       \<not> usableAt (cleared [acctLimited, acctInvalid] 100) (Some ''m'') 100 j"
    unfolding cC by (simp add: ev_defs ex_defs less_Suc_eq)
  from mp[OF conjunct2[OF conjunct2[OF C[OF sC]]] hC]
  have rC: "pickNext [acctLimited, acctInvalid] 1 (Some ''m'') 100 =
       ([acctLimited, acctInvalid], \<lparr>account = None, newIndex = 1\<rparr>)"
    unfolding cC .
  have hC': "\<not> usableAt (cleared [acctLimited, acctInvalid] 100) (Some ''m'') 100 0"
    "\<not> usableAt (cleared [acctLimited, acctInvalid] 100) (Some ''m'') 100 1"
    using hC by simp_all
  have n7: "\<not> 7 < length [acctFree, acctSpare, acctInvalid]" by simp
  show ?thesis using cA rA n7 rB hC' rC by blast
qed

text \<open>
  C8 as stated fails for a current index beyond the end. With three accounts and the
  index 4 the stated scan starts at \<open>(4 + 1) mod 3 = 2\<close>, where a usable account sits;
  \<^verbatim>\<open>pickNext\<close> takes the index as 0, starts at position 1 and returns the usable
  account there.
\<close>

theorem pickNext_out_of_range_counterexample:
  "length [acctLimited, acctFree, acctSpare] = 3
   \<and> (4 + 1) mod length [acctLimited, acctFree, acctSpare] = 2
   \<and> usableAt (cleared [acctLimited, acctFree, acctSpare] 100) (Some ''m'') 100 2
   \<and> newIndex (snd (pickNext [acctLimited, acctFree, acctSpare] 4 (Some ''m'') 100)) = 1
   \<and> account (snd (pickNext [acctLimited, acctFree, acctSpare] 4 (Some ''m'') 100))
        = Some (acctFree\<lparr>lastUsed := Some 100\<rparr>)
   \<and> acctFree\<lparr>lastUsed := Some 100\<rparr> \<noteq> acctSpare\<lparr>lastUsed := Some 100\<rparr>"
  by (simp add: sel_defs ev_defs ex_defs)

lemma pickNext_index:
  "(account (snd (pickNext accounts ci m now)) \<noteq> None \<longrightarrow>
      newIndex (snd (pickNext accounts ci m now)) < length accounts)
   \<and> (account (snd (pickNext accounts ci m now)) = None \<longrightarrow>
      newIndex (snd (pickNext accounts ci m now)) = ci)"
proof (cases "\<exists>j<length accounts. usableAt (cleared accounts now) m now j")
  case True
  then have "0 < length accounts" by auto
  with pickNext_some[OF True, of ci] show ?thesis by auto
next
  case False
  then have "\<forall>j<length accounts. \<not> usableAt (cleared accounts now) m now j" by blast
  from pickNext_none[OF this, of ci] show ?thesis by simp
qed

lemma pickSticky_index:
  "(stickyAccount (snd (pickStickyAccount maxWait accounts ci m now)) \<noteq> None \<longrightarrow>
      stickyIndex (snd (pickStickyAccount maxWait accounts ci m now)) < length accounts)
   \<and> (stickyAccount (snd (pickStickyAccount maxWait accounts ci m now)) = None \<longrightarrow>
      stickyIndex (snd (pickStickyAccount maxWait accounts ci m now)) = ci)"
proof (cases "usableAt accounts m now (clampIndex accounts ci)")
  case True
  then have "accounts \<noteq> []" by (auto simp: usableAt_def nthOpt_def isAccountUsable_def)
  then have "clampIndex accounts ci < length accounts" by (simp add: clampIndex_def)
  then show ?thesis by (simp add: pickSticky_hit[OF True])
next
  case miss: False
  show ?thesis
  proof (cases "\<exists>j<length accounts. usableAt accounts m now j")
    case True
    from pickSticky_failover(1)[OF miss True, of maxWait] pickSticky_failover(2)[OF miss True]
      pickNext_index[of accounts ci m now]
    show ?thesis by simp
  next
    case False
    then have "\<forall>j<length accounts. \<not> usableAt accounts m now j" by blast
    from pickSticky_exhausted[OF this, of maxWait ci] show ?thesis by (simp add: Let_def)
  qed
qed

lemma sticky_index:
  "accounts \<noteq> [] \<Longrightarrow>
     newIndex (snd (getCurrentStickyAccount accounts ci m now)) = clampIndex accounts ci"
  by (simp add: getCurrentStickyAccount_def cleared_def[symmetric] Let_def)

text \<open>
  C6, as amended. On a non-empty account list \<^verbatim>\<open>getCurrentStickyAccount\<close> always returns the
  incoming index clamped (an index at or beyond the end becomes 0), which lies in
  \<open>[0, length)\<close>. \<^verbatim>\<open>pickNext\<close> and \<^verbatim>\<open>pickStickyAccount\<close> return an index in
  \<open>[0, length)\<close> whenever the incoming index was in range or they return an account;
  when they return no account they hand the incoming index back unchanged.
\<close>

theorem selector_index_range:
  "accounts \<noteq> [] \<longrightarrow>
     newIndex (snd (getCurrentStickyAccount accounts ci m now)) = clampIndex accounts ci
     \<and> clampIndex accounts ci < length accounts
     \<and> (ci < length accounts \<longrightarrow>
          newIndex (snd (pickNext accounts ci m now)) < length accounts
          \<and> stickyIndex (snd (pickStickyAccount maxWait accounts ci m now)) < length accounts)
     \<and> (account (snd (pickNext accounts ci m now)) \<noteq> None \<longrightarrow>
          newIndex (snd (pickNext accounts ci m now)) < length accounts)
     \<and> (account (snd (pickNext accounts ci m now)) = None \<longrightarrow>
          newIndex (snd (pickNext accounts ci m now)) = ci)
     \<and> (stickyAccount (snd (pickStickyAccount maxWait accounts ci m now)) \<noteq> None \<longrightarrow>
          stickyIndex (snd (pickStickyAccount maxWait accounts ci m now)) < length accounts)
     \<and> (stickyAccount (snd (pickStickyAccount maxWait accounts ci m now)) = None \<longrightarrow>
          stickyIndex (snd (pickStickyAccount maxWait accounts ci m now)) = ci)"
proof
  assume ne: "accounts \<noteq> []"
  have cl: "clampIndex accounts ci < length accounts" using ne by (simp add: clampIndex_def)
  have inr: "newIndex (snd (pickNext accounts ci m now)) < length accounts
          \<and> stickyIndex (snd (pickStickyAccount maxWait accounts ci m now)) < length accounts"
    if "ci < length accounts"
    using that pickNext_index[of accounts ci m now] pickSticky_index[of maxWait accounts ci m now]
    by (cases "account (snd (pickNext accounts ci m now))";
        cases "stickyAccount (snd (pickStickyAccount maxWait accounts ci m now))") auto
  show "newIndex (snd (getCurrentStickyAccount accounts ci m now)) = clampIndex accounts ci
     \<and> clampIndex accounts ci < length accounts
     \<and> (ci < length accounts \<longrightarrow>
          newIndex (snd (pickNext accounts ci m now)) < length accounts
          \<and> stickyIndex (snd (pickStickyAccount maxWait accounts ci m now)) < length accounts)
     \<and> (account (snd (pickNext accounts ci m now)) \<noteq> None \<longrightarrow>
          newIndex (snd (pickNext accounts ci m now)) < length accounts)
     \<and> (account (snd (pickNext accounts ci m now)) = None \<longrightarrow>
          newIndex (snd (pickNext accounts ci m now)) = ci)
     \<and> (stickyAccount (snd (pickStickyAccount maxWait accounts ci m now)) \<noteq> None \<longrightarrow>
          stickyIndex (snd (pickStickyAccount maxWait accounts ci m now)) < length accounts)
     \<and> (stickyAccount (snd (pickStickyAccount maxWait accounts ci m now)) = None \<longrightarrow>
          stickyIndex (snd (pickStickyAccount maxWait accounts ci m now)) = ci)"
    using sticky_index[OF ne, of ci m now] cl inr
      pickNext_index[of accounts ci m now] pickSticky_index[of maxWait accounts ci m now]
    by blast
qed

text \<open>
  C6 as stated fails: on the one-account list whose account is invalid, \<^verbatim>\<open>pickNext\<close>
  and \<^verbatim>\<open>pickStickyAccount\<close> called with the out-of-range index 5 return the index 5,
  which is neither below the length 1 nor clamped to 0.
\<close>

theorem selector_index_range_counterexample:
  "[acctInvalid] \<noteq> []
   \<and> newIndex (snd (pickNext [acctInvalid] 5 (Some ''m'') 100)) = 5
   \<and> stickyIndex (snd (pickStickyAccount 120000 [acctInvalid] 5 (Some ''m'') 100)) = 5
   \<and> \<not> newIndex (snd (pickNext [acctInvalid] 5 (Some ''m'') 100)) < length [acctInvalid]
   \<and> \<not> stickyIndex (snd (pickStickyAccount 120000 [acctInvalid] 5 (Some ''m'') 100))
         < length [acctInvalid]"
  by (simp add: pickNext_def pickStickyAccount_def getCurrentStickyAccount_def
      shouldWaitForCurrentAccount_def ev_defs ex_defs Let_def)


theorem selector_index_range_witness:
  "[acctLimited, acctFree] \<noteq> [] \<and> (0::nat) < length [acctLimited, acctFree]
   \<and> account (snd (pickNext [acctLimited, acctFree] 0 (Some ''m'') 100)) \<noteq> None
   \<and> stickyAccount (snd (pickStickyAccount 120000 [acctLimited, acctFree] 0 (Some ''m'') 100)) \<noteq> None
   \<and> newIndex (snd (getCurrentStickyAccount [acctLimited, acctFree] 7 (Some ''m'') 100)) = 0
   \<and> newIndex (snd (pickNext [acctLimited, acctFree] 0 (Some ''m'') 100)) < length [acctLimited, acctFree]
   \<and> stickyIndex (snd (pickStickyAccount 120000 [acctLimited, acctFree] 0 (Some ''m'') 100))
        < length [acctLimited, acctFree]
   \<and> [acctInvalid] \<noteq> []
   \<and> account (snd (pickNext [acctInvalid] 0 (Some ''m'') 100)) = None
   \<and> stickyAccount (snd (pickStickyAccount 120000 [acctInvalid] 0 (Some ''m'') 100)) = None
   \<and> newIndex (snd (pickNext [acctInvalid] 0 (Some ''m'') 100)) = 0
   \<and> stickyIndex (snd (pickStickyAccount 120000 [acctInvalid] 0 (Some ''m'') 100)) = 0"
proof -
  have h1: "[acctLimited, acctFree] \<noteq> []" "(0::nat) < length [acctLimited, acctFree]" by simp_all
  have h2: "account (snd (pickNext [acctLimited, acctFree] 0 (Some ''m'') 100)) \<noteq> None"
    by (simp add: sel_defs ev_defs ex_defs)
  have h3: "stickyAccount (snd (pickStickyAccount 120000 [acctLimited, acctFree] 0 (Some ''m'') 100)) \<noteq> None"
    by (simp add: sel_defs ev_defs ex_defs)
  have h4: "[acctInvalid] \<noteq> []" by simp
  have h5: "account (snd (pickNext [acctInvalid] 0 (Some ''m'') 100)) = None"
    by (simp add: sel_defs ev_defs ex_defs)
  have h6: "stickyAccount (snd (pickStickyAccount 120000 [acctInvalid] 0 (Some ''m'') 100)) = None"
    by (simp add: sel_defs ev_defs ex_defs)
  have c0: "clampIndex [acctLimited, acctFree] 7 = 0" by (simp add: clampIndex_def)
  note A = selector_index_range[of "[acctLimited, acctFree]" 7 "Some ''m''" 100 120000]
  note B = selector_index_range[of "[acctLimited, acctFree]" 0 "Some ''m''" 100 120000]
  note C = selector_index_range[of "[acctInvalid]" 0 "Some ''m''" 100 120000]
  have a: "newIndex (snd (getCurrentStickyAccount [acctLimited, acctFree] 7 (Some ''m'') 100)) = 0"
    using A h1 c0 by simp
  have b: "newIndex (snd (pickNext [acctLimited, acctFree] 0 (Some ''m'') 100)) < length [acctLimited, acctFree]"
    "stickyIndex (snd (pickStickyAccount 120000 [acctLimited, acctFree] 0 (Some ''m'') 100))
        < length [acctLimited, acctFree]"
    using B h1 h2 h3 by blast+
  have c: "newIndex (snd (pickNext [acctInvalid] 0 (Some ''m'') 100)) = 0"
    "stickyIndex (snd (pickStickyAccount 120000 [acctInvalid] 0 (Some ''m'') 100)) = 0"
    using C h4 h5 h6 by blast+
  show ?thesis using h1 h2 h3 h4 h5 h6 a b c by blast
qed

lemma pickSticky_wait_iff:
  assumes "0 \<le> now"
  shows "(stickyAccount (snd (pickStickyAccount maxWait accounts ci m now)) = None
            \<and> 0 < waitMs (snd (pickStickyAccount maxWait accounts ci m now)))
         = (accounts \<noteq> [] \<and> (\<forall>j<length accounts. \<not> usableAt accounts m now j)
            \<and> waitable maxWait (accounts ! clampIndex accounts ci) m now)"
proof (cases "usableAt accounts m now (clampIndex accounts ci)")
  case True
  then have ne: "accounts \<noteq> []" by (auto simp: usableAt_def nthOpt_def isAccountUsable_def)
  then have "clampIndex accounts ci < length accounts" by (simp add: clampIndex_def)
  with True show ?thesis by (auto simp: pickSticky_hit[OF True])
next
  case miss: False
  show ?thesis
  proof (cases "\<exists>j<length accounts. usableAt accounts m now j")
    case True
    from pickSticky_failover(1)[OF miss True, of maxWait] pickSticky_failover(2)[OF miss True]
    show ?thesis using True by auto
  next
    case False
    then have none: "\<forall>j<length accounts. \<not> usableAt accounts m now j" by blast
    show ?thesis
    proof (cases "accounts = []")
      case True
      then show ?thesis
        using pickSticky_exhausted[OF none, of maxWait ci]
        by (simp add: Let_def shouldWaitForCurrentAccount_def)
    next
      case ne: False
      have pos: "shouldWait (shouldWaitForCurrentAccount maxWait (cleared accounts now) ci m now)
          \<Longrightarrow> 0 < waitFor (shouldWaitForCurrentAccount maxWait (cleared accounts now) ci m now)"
        by (auto simp: shouldWaitForCurrentAccount_def Let_def split: option.splits if_splits)
      show ?thesis
        using pickSticky_exhausted[OF none, of maxWait ci] shouldWait_iff[OF assms ne, of maxWait ci m]
          none ne pos
        by (auto simp: Let_def)
    qed
  qed
qed

lemma pickSticky_wait_val:
  assumes "0 \<le> now"
    and "stickyAccount (snd (pickStickyAccount maxWait accounts ci m now)) = None"
    and "0 < waitMs (snd (pickStickyAccount maxWait accounts ci m now))"
    and "modelLimit (accounts ! clampIndex accounts ci) m = Some l" "resetTime l = Some t"
  shows "pickStickyAccount maxWait accounts ci m now =
           (cleared accounts now, \<lparr>stickyAccount = None, waitMs = t - now, stickyIndex = ci\<rparr>)"
proof -
  from pickSticky_wait_iff[OF assms(1), of maxWait accounts ci m] assms(2,3)
  have ne: "accounts \<noteq> []" and none: "\<forall>j<length accounts. \<not> usableAt accounts m now j"
    and w: "waitable maxWait (accounts ! clampIndex accounts ci) m now" by blast+
  from w shouldWait_iff[OF assms(1) ne, of maxWait ci m]
  have sw: "shouldWait (shouldWaitForCurrentAccount maxWait (cleared accounts now) ci m now)"
    by simp
  from shouldWait_val[OF assms(1) ne assms(4,5) sw]
  show ?thesis using pickSticky_exhausted[OF none, of maxWait ci] sw by (simp add: Let_def)
qed

text \<open>
  C1. The sticky account is the account at \<open>activeIndex\<close> (an index at or beyond the
  end counts as 0, the clamp of the source); the clock reads \<open>now \<ge> 0\<close>.
  \<^enum> When the sticky account is usable for the model, \<^verbatim>\<open>pickStickyAccount\<close> returns it
    (touched with \<^verbatim>\<open>lastUsed = now\<close>) with \<^verbatim>\<open>waitMs = 0\<close> and its own index.
  \<^enum> When it is not usable and some account is, the result is a different, usable
    account -- the first usable one on the rotation after the sticky position -- with
    \<^verbatim>\<open>waitMs = 0\<close>, and the index moves to it.
  \<^enum> The result is \<^verbatim>\<open>{account: null, waitMs > 0}\<close> exactly when the list is not empty,
    no account is usable, the sticky account is not invalid and its limit for the model
    is active with \<open>resetTime - now\<close> in \<open>(0, MaxWaitBeforeError]\<close>;
  \<^enum> and then \<^verbatim>\<open>waitMs\<close> is that \<open>resetTime - now\<close>, and the index is kept.
\<close>

theorem pickStickyAccount_cases:
  assumes "0 \<le> now"
  shows
  "(usableAt accounts m now (clampIndex accounts ci) \<longrightarrow>
      pickStickyAccount maxWait accounts ci m now =
        ((cleared accounts now)[clampIndex accounts ci :=
            (cleared accounts now ! clampIndex accounts ci)\<lparr>lastUsed := Some now\<rparr>],
         \<lparr>stickyAccount = Some ((cleared accounts now ! clampIndex accounts ci)\<lparr>lastUsed := Some now\<rparr>),
          waitMs = 0, stickyIndex = clampIndex accounts ci\<rparr>))
   \<and> (\<not> usableAt accounts m now (clampIndex accounts ci)
        \<and> (\<exists>j<length accounts. usableAt accounts m now j) \<longrightarrow>
      (\<exists>i. 1 \<le> i \<and> i \<le> length accounts
         \<and> (\<forall>k. 1 \<le> k \<and> k < i \<longrightarrow>
               \<not> usableAt accounts m now ((clampIndex accounts ci + k) mod length accounts))
         \<and> usableAt accounts m now ((clampIndex accounts ci + i) mod length accounts)
         \<and> (clampIndex accounts ci + i) mod length accounts \<noteq> clampIndex accounts ci
         \<and> pickStickyAccount maxWait accounts ci m now =
             ((cleared accounts now)[(clampIndex accounts ci + i) mod length accounts :=
                 (cleared accounts now ! ((clampIndex accounts ci + i) mod length accounts))
                   \<lparr>lastUsed := Some now\<rparr>],
              \<lparr>stickyAccount = Some ((cleared accounts now !
                     ((clampIndex accounts ci + i) mod length accounts))\<lparr>lastUsed := Some now\<rparr>),
               waitMs = 0,
               stickyIndex = (clampIndex accounts ci + i) mod length accounts\<rparr>)))
   \<and> ((stickyAccount (snd (pickStickyAccount maxWait accounts ci m now)) = None
          \<and> 0 < waitMs (snd (pickStickyAccount maxWait accounts ci m now)))
        = (accounts \<noteq> [] \<and> (\<forall>j<length accounts. \<not> usableAt accounts m now j)
            \<and> waitable maxWait (accounts ! clampIndex accounts ci) m now))
   \<and> (\<forall>l t. stickyAccount (snd (pickStickyAccount maxWait accounts ci m now)) = None
          \<and> 0 < waitMs (snd (pickStickyAccount maxWait accounts ci m now))
          \<and> modelLimit (accounts ! clampIndex accounts ci) m = Some l \<and> resetTime l = Some t
        \<longrightarrow> pickStickyAccount maxWait accounts ci m now =
              (cleared accounts now, \<lparr>stickyAccount = None, waitMs = t - now, stickyIndex = ci\<rparr>))"
proof (intro conjI impI allI)
  assume "usableAt accounts m now (clampIndex accounts ci)"
  from pickSticky_hit[OF this, of maxWait]
  show "pickStickyAccount maxWait accounts ci m now =
        ((cleared accounts now)[clampIndex accounts ci :=
            (cleared accounts now ! clampIndex accounts ci)\<lparr>lastUsed := Some now\<rparr>],
         \<lparr>stickyAccount = Some ((cleared accounts now ! clampIndex accounts ci)\<lparr>lastUsed := Some now\<rparr>),
          waitMs = 0, stickyIndex = clampIndex accounts ci\<rparr>)"
    by (simp add: touch_def)
next
  assume a: "\<not> usableAt accounts m now (clampIndex accounts ci)
        \<and> (\<exists>j<length accounts. usableAt accounts m now j)"
  then have miss: "\<not> usableAt accounts m now (clampIndex accounts ci)"
    and ex: "\<exists>j<length accounts. usableAt accounts m now j" by blast+
  have ex': "\<exists>j<length accounts. usableAt (cleared accounts now) m now j"
    using ex by (simp add: usableAt_cleared')
  from pickNext_some[OF ex', of ci] obtain i where
    i: "1 \<le> i" "i \<le> length accounts"
       "\<forall>k. 1 \<le> k \<and> k < i \<longrightarrow>
              \<not> usableAt (cleared accounts now) m now ((clampIndex accounts ci + k) mod length accounts)"
       "usableAt (cleared accounts now) m now ((clampIndex accounts ci + i) mod length accounts)"
       "pickNext accounts ci m now =
             ((cleared accounts now)[(clampIndex accounts ci + i) mod length accounts :=
                 touch now (cleared accounts now ! ((clampIndex accounts ci + i) mod length accounts))],
              \<lparr>account = Some (touch now
                   (cleared accounts now ! ((clampIndex accounts ci + i) mod length accounts))),
               newIndex = (clampIndex accounts ci + i) mod length accounts\<rparr>)"
    by blast
  have neq: "(clampIndex accounts ci + i) mod length accounts \<noteq> clampIndex accounts ci"
    using i(4) miss by (auto simp: usableAt_cleared')
  show "\<exists>i. 1 \<le> i \<and> i \<le> length accounts
         \<and> (\<forall>k. 1 \<le> k \<and> k < i \<longrightarrow>
               \<not> usableAt accounts m now ((clampIndex accounts ci + k) mod length accounts))
         \<and> usableAt accounts m now ((clampIndex accounts ci + i) mod length accounts)
         \<and> (clampIndex accounts ci + i) mod length accounts \<noteq> clampIndex accounts ci
         \<and> pickStickyAccount maxWait accounts ci m now =
             ((cleared accounts now)[(clampIndex accounts ci + i) mod length accounts :=
                 (cleared accounts now ! ((clampIndex accounts ci + i) mod length accounts))
                   \<lparr>lastUsed := Some now\<rparr>],
              \<lparr>stickyAccount = Some ((cleared accounts now !
                     ((clampIndex accounts ci + i) mod length accounts))\<lparr>lastUsed := Some now\<rparr>),
               waitMs = 0,
               stickyIndex = (clampIndex accounts ci + i) mod length accounts\<rparr>)"
    using i(1,2,3,4) neq pickSticky_failover(1)[OF miss ex, of maxWait] i(5)
    by (intro exI[of _ i]) (simp add: usableAt_cleared' touch_def)
next
  show "(stickyAccount (snd (pickStickyAccount maxWait accounts ci m now)) = None
          \<and> 0 < waitMs (snd (pickStickyAccount maxWait accounts ci m now)))
        = (accounts \<noteq> [] \<and> (\<forall>j<length accounts. \<not> usableAt accounts m now j)
            \<and> waitable maxWait (accounts ! clampIndex accounts ci) m now)"
    by (rule pickSticky_wait_iff[OF assms])
next
  fix l t
  assume "stickyAccount (snd (pickStickyAccount maxWait accounts ci m now)) = None
          \<and> 0 < waitMs (snd (pickStickyAccount maxWait accounts ci m now))
          \<and> modelLimit (accounts ! clampIndex accounts ci) m = Some l \<and> resetTime l = Some t"
  then show "pickStickyAccount maxWait accounts ci m now =
              (cleared accounts now, \<lparr>stickyAccount = None, waitMs = t - now, stickyIndex = ci\<rparr>)"
    using pickSticky_wait_val[OF assms, of maxWait accounts ci m l t] by blast
qed


theorem pickStickyAccount_cases_witness:
  "(0::int) \<le> 100
   \<and> usableAt [acctFree, acctLimited] (Some ''m'') 100 (clampIndex [acctFree, acctLimited] 0)
   \<and> pickStickyAccount 120000 [acctFree, acctLimited] 0 (Some ''m'') 100 =
       ([acctFree\<lparr>lastUsed := Some 100\<rparr>, acctLimited],
        \<lparr>stickyAccount = Some (acctFree\<lparr>lastUsed := Some 100\<rparr>), waitMs = 0, stickyIndex = 0\<rparr>)
   \<and> \<not> usableAt [acctLimited, acctFree] (Some ''m'') 100 (clampIndex [acctLimited, acctFree] 0)
   \<and> (\<exists>j<length [acctLimited, acctFree]. usableAt [acctLimited, acctFree] (Some ''m'') 100 j)
   \<and> pickStickyAccount 120000 [acctLimited, acctFree] 0 (Some ''m'') 100 =
       ([acctLimited, acctFree\<lparr>lastUsed := Some 100\<rparr>],
        \<lparr>stickyAccount = Some (acctFree\<lparr>lastUsed := Some 100\<rparr>), waitMs = 0, stickyIndex = 1\<rparr>)
   \<and> [acctLimited] \<noteq> []
   \<and> \<not> usableAt [acctLimited] (Some ''m'') 100 0
   \<and> waitable 120000 ([acctLimited] ! clampIndex [acctLimited] 0) (Some ''m'') 100
   \<and> modelLimit ([acctLimited] ! clampIndex [acctLimited] 0) (Some ''m'')
        = Some \<lparr>isRateLimited = True, resetTime = Some 150\<rparr>
   \<and> pickStickyAccount 120000 [acctLimited] 0 (Some ''m'') 100 =
       ([acctLimited], \<lparr>stickyAccount = None, waitMs = 50, stickyIndex = 0\<rparr>)"
proof -
  have now: "(0::int) \<le> 100" by simp
  note A = pickStickyAccount_cases[OF now, of "[acctFree, acctLimited]" "Some ''m''" 0 120000]
  note B = pickStickyAccount_cases[OF now, of "[acctLimited, acctFree]" "Some ''m''" 0 120000]
  note C = pickStickyAccount_cases[OF now, of "[acctLimited]" "Some ''m''" 0 120000]
  have ca: "cleared [acctFree, acctLimited] 100 = [acctFree, acctLimited]"
    and cb: "cleared [acctLimited, acctFree] 100 = [acctLimited, acctFree]"
    and cc: "cleared [acctLimited] 100 = [acctLimited]"
    by (simp_all add: ev_defs ex_defs)
  have sa: "clampIndex [acctFree, acctLimited] 0 = 0"
    and sb: "clampIndex [acctLimited, acctFree] 0 = 0"
    and sc: "clampIndex [acctLimited] 0 = 0"
    by (simp_all add: clampIndex_def)
  \<comment> \<open>the sticky account is usable\<close>
  have ha: "usableAt [acctFree, acctLimited] (Some ''m'') 100 (clampIndex [acctFree, acctLimited] 0)"
    by (simp add: ev_defs ex_defs)
  from mp[OF conjunct1[OF A] ha]
  have ra: "pickStickyAccount 120000 [acctFree, acctLimited] 0 (Some ''m'') 100 =
       ([acctFree\<lparr>lastUsed := Some 100\<rparr>, acctLimited],
        \<lparr>stickyAccount = Some (acctFree\<lparr>lastUsed := Some 100\<rparr>), waitMs = 0, stickyIndex = 0\<rparr>)"
    unfolding ca sa by simp
  \<comment> \<open>the sticky account is limited, the other one is free\<close>
  have hb1: "\<not> usableAt [acctLimited, acctFree] (Some ''m'') 100 (clampIndex [acctLimited, acctFree] 0)"
    by (simp add: ev_defs ex_defs)
  have hb2: "\<exists>j<length [acctLimited, acctFree]. usableAt [acctLimited, acctFree] (Some ''m'') 100 j"
    by (intro exI[of _ 1]) (simp add: ev_defs ex_defs)
  from mp[OF conjunct1[OF conjunct2[OF B]] conjI[OF hb1 hb2]] obtain i where
    i: "1 \<le> i" "i \<le> length [acctLimited, acctFree]"
       "(clampIndex [acctLimited, acctFree] 0 + i) mod length [acctLimited, acctFree]
          \<noteq> clampIndex [acctLimited, acctFree] 0"
       "pickStickyAccount 120000 [acctLimited, acctFree] 0 (Some ''m'') 100 =
             ((cleared [acctLimited, acctFree] 100)
                [(clampIndex [acctLimited, acctFree] 0 + i) mod length [acctLimited, acctFree] :=
                 (cleared [acctLimited, acctFree] 100 !
                    ((clampIndex [acctLimited, acctFree] 0 + i) mod length [acctLimited, acctFree]))
                   \<lparr>lastUsed := Some 100\<rparr>],
              \<lparr>stickyAccount = Some ((cleared [acctLimited, acctFree] 100 !
                     ((clampIndex [acctLimited, acctFree] 0 + i) mod length [acctLimited, acctFree]))
                   \<lparr>lastUsed := Some 100\<rparr>),
               waitMs = 0,
               stickyIndex = (clampIndex [acctLimited, acctFree] 0 + i) mod length [acctLimited, acctFree]\<rparr>)"
    by blast
  have len2: "length [acctLimited, acctFree] = 2" by simp
  have "i = 1 \<or> i = 2" using i(1,2) by auto
  then have "i = 1" using i(3) unfolding sb len2 by auto
  then have rb: "pickStickyAccount 120000 [acctLimited, acctFree] 0 (Some ''m'') 100 =
       ([acctLimited, acctFree\<lparr>lastUsed := Some 100\<rparr>],
        \<lparr>stickyAccount = Some (acctFree\<lparr>lastUsed := Some 100\<rparr>), waitMs = 0, stickyIndex = 1\<rparr>)"
    using i(4) unfolding cb sb len2 by simp
  \<comment> \<open>the only account is limited for another 50 ms\<close>
  have hc1: "[acctLimited] \<noteq> []" by simp
  have hc2: "\<not> usableAt [acctLimited] (Some ''m'') 100 0" by (simp add: ev_defs ex_defs)
  then have hc2': "\<forall>j<length [acctLimited]. \<not> usableAt [acctLimited] (Some ''m'') 100 j" by simp
  have hc4: "modelLimit ([acctLimited] ! clampIndex [acctLimited] 0) (Some ''m'')
        = Some \<lparr>isRateLimited = True, resetTime = Some 150\<rparr>"
    by (simp add: ev_defs ex_defs)
  have hc3: "waitable 120000 ([acctLimited] ! clampIndex [acctLimited] 0) (Some ''m'') 100"
    unfolding waitable_def hc4 by (simp add: clampIndex_def ex_defs)
  from conjunct1[OF conjunct2[OF conjunct2[OF C]]] hc1 hc2' hc3
  have w: "stickyAccount (snd (pickStickyAccount 120000 [acctLimited] 0 (Some ''m'') 100)) = None
          \<and> 0 < waitMs (snd (pickStickyAccount 120000 [acctLimited] 0 (Some ''m'') 100))"
    by blast
  from conjunct2[OF conjunct2[OF conjunct2[OF C]]] w hc4
  have rc: "pickStickyAccount 120000 [acctLimited] 0 (Some ''m'') 100 =
       ([acctLimited], \<lparr>stickyAccount = None, waitMs = 50, stickyIndex = 0\<rparr>)"
    unfolding cc by force
  show ?thesis using now ha ra hb1 hb2 rb hc1 hc2 hc3 hc4 rc by blast
qed

lemma findIndex_Some:
  "findIndex P xs = Some i \<Longrightarrow> i < length xs \<and> P (xs ! i) \<and> (\<forall>j<i. \<not> P (xs ! j))"
proof (induction xs arbitrary: i)
  case Nil
  then show ?case by simp
next
  case (Cons x xs)
  show ?case
  proof (cases "P x")
    case True
    with Cons.prems show ?thesis by simp
  next
    case False
    with Cons.prems obtain k where k: "findIndex P xs = Some k" "i = Suc k"
      by (auto split: option.splits)
    from Cons.IH[OF k(1)] False k(2) show ?thesis
      by (auto simp: nth_Cons split: nat.splits)
  qed
qed

lemma findIndex_None: "(findIndex P xs = None) = (\<forall>x \<in> set xs. \<not> P x)"
  by (induction xs) (auto split: option.splits)

lemma limitOf_setLimit:
  "limitOf (setLimit acc key l) k = (if k = key then Some l else limitOf acc k)"
  by (auto simp: limitOf_def setLimit_def update_conv' split: option.splits)

lemma setLimit_fields:
  "setLimit acc key l = acc\<lparr>modelRateLimits := modelRateLimits (setLimit acc key l)\<rparr>"
  by (simp add: setLimit_def)

text \<open>
  C2, as amended. When the list has an account with the given email,
  \<^verbatim>\<open>markRateLimited\<close> returns true and writes, in the first account with that email, the
  record \<^verbatim>\<open>{isRateLimited: true, resetTime}\<close> under the model's key, where \<open>resetTime\<close> is
  \<open>now + resetMs\<close> when \<^verbatim>\<open>resetMs\<close> is neither \<^verbatim>\<open>null\<close> nor 0; otherwise
  \<open>now +\<close> the settings cooldown when that is neither \<^verbatim>\<open>null\<close> nor 0; otherwise
  \<open>now + DefaultCooldown\<close>. The records of the other models, the other fields of that
  account and all other accounts stay as they were.
\<close>

theorem markRateLimited_sets_record:
  "em \<in> email ` set accounts \<longrightarrow>
   (\<exists>i<length accounts.
      email (accounts ! i) = em \<and> (\<forall>j<i. email (accounts ! j) \<noteq> em)
      \<and> snd (markRateLimited dflt accounts em resetMs st modelId now) = True
      \<and> length (fst (markRateLimited dflt accounts em resetMs st modelId now)) = length accounts
      \<and> (\<forall>r. resetMs = Some r \<and> r \<noteq> 0 \<longrightarrow>
            limitOf (fst (markRateLimited dflt accounts em resetMs st modelId now) ! i) (propKey modelId)
              = Some \<lparr>isRateLimited = True, resetTime = Some (now + r)\<rparr>)
      \<and> (\<forall>c. (resetMs = None \<or> resetMs = Some 0) \<and> cooldownDurationMs st = Some c \<and> c \<noteq> 0 \<longrightarrow>
            limitOf (fst (markRateLimited dflt accounts em resetMs st modelId now) ! i) (propKey modelId)
              = Some \<lparr>isRateLimited = True, resetTime = Some (now + c)\<rparr>)
      \<and> ((resetMs = None \<or> resetMs = Some 0)
            \<and> (cooldownDurationMs st = None \<or> cooldownDurationMs st = Some 0) \<longrightarrow>
            limitOf (fst (markRateLimited dflt accounts em resetMs st modelId now) ! i) (propKey modelId)
              = Some \<lparr>isRateLimited = True, resetTime = Some (now + dflt)\<rparr>)
      \<and> (\<forall>k. k \<noteq> propKey modelId \<longrightarrow>
            limitOf (fst (markRateLimited dflt accounts em resetMs st modelId now) ! i) k
              = limitOf (accounts ! i) k)
      \<and> fst (markRateLimited dflt accounts em resetMs st modelId now) ! i
           = (accounts ! i)\<lparr>modelRateLimits :=
                modelRateLimits (fst (markRateLimited dflt accounts em resetMs st modelId now) ! i)\<rparr>
      \<and> (\<forall>j<length accounts. j \<noteq> i \<longrightarrow>
            fst (markRateLimited dflt accounts em resetMs st modelId now) ! j = accounts ! j))"
proof
  assume "em \<in> email ` set accounts"
  then have "findIndex (\<lambda>a. email a = em) accounts \<noteq> None"
    by (auto simp: findIndex_None)
  then obtain i where fi: "findIndex (\<lambda>a. email a = em) accounts = Some i" by blast
  from findIndex_Some[OF fi] have i: "i < length accounts" "email (accounts ! i) = em"
    "\<forall>j<i. email (accounts ! j) \<noteq> em" by blast+
  let ?l = "\<lparr>isRateLimited = True, resetTime = Some (now + cooldownMs dflt resetMs st)\<rparr>"
  have res: "markRateLimited dflt accounts em resetMs st modelId now =
     (accounts[i := setLimit (accounts ! i) (propKey modelId) ?l], True)"
    by (simp add: markRateLimited_def fi)
  have at: "fst (markRateLimited dflt accounts em resetMs st modelId now) ! i
      = setLimit (accounts ! i) (propKey modelId) ?l"
    using i(1) by (simp add: res)
  have lim: "limitOf (fst (markRateLimited dflt accounts em resetMs st modelId now) ! i) (propKey modelId)
      = Some \<lparr>isRateLimited = True, resetTime = Some (now + cooldownMs dflt resetMs st)\<rparr>"
    by (simp add: at limitOf_setLimit)
  have c1: "\<forall>r. resetMs = Some r \<and> r \<noteq> 0 \<longrightarrow> cooldownMs dflt resetMs st = r"
    by (simp add: cooldownMs_def truthyNum_def toNumber_def)
  have c2: "\<forall>c. (resetMs = None \<or> resetMs = Some 0) \<and> cooldownDurationMs st = Some c \<and> c \<noteq> 0
      \<longrightarrow> cooldownMs dflt resetMs st = c"
    by (auto simp: cooldownMs_def truthyNum_def toNumber_def)
  have c3: "(resetMs = None \<or> resetMs = Some 0)
            \<and> (cooldownDurationMs st = None \<or> cooldownDurationMs st = Some 0)
      \<longrightarrow> cooldownMs dflt resetMs st = dflt"
    by (auto simp: cooldownMs_def truthyNum_def toNumber_def)
  show "\<exists>i<length accounts.
      email (accounts ! i) = em \<and> (\<forall>j<i. email (accounts ! j) \<noteq> em)
      \<and> snd (markRateLimited dflt accounts em resetMs st modelId now) = True
      \<and> length (fst (markRateLimited dflt accounts em resetMs st modelId now)) = length accounts
      \<and> (\<forall>r. resetMs = Some r \<and> r \<noteq> 0 \<longrightarrow>
            limitOf (fst (markRateLimited dflt accounts em resetMs st modelId now) ! i) (propKey modelId)
              = Some \<lparr>isRateLimited = True, resetTime = Some (now + r)\<rparr>)
      \<and> (\<forall>c. (resetMs = None \<or> resetMs = Some 0) \<and> cooldownDurationMs st = Some c \<and> c \<noteq> 0 \<longrightarrow>
            limitOf (fst (markRateLimited dflt accounts em resetMs st modelId now) ! i) (propKey modelId)
              = Some \<lparr>isRateLimited = True, resetTime = Some (now + c)\<rparr>)
      \<and> ((resetMs = None \<or> resetMs = Some 0)
            \<and> (cooldownDurationMs st = None \<or> cooldownDurationMs st = Some 0) \<longrightarrow>
            limitOf (fst (markRateLimited dflt accounts em resetMs st modelId now) ! i) (propKey modelId)
              = Some \<lparr>isRateLimited = True, resetTime = Some (now + dflt)\<rparr>)
      \<and> (\<forall>k. k \<noteq> propKey modelId \<longrightarrow>
            limitOf (fst (markRateLimited dflt accounts em resetMs st modelId now) ! i) k
              = limitOf (accounts ! i) k)
      \<and> fst (markRateLimited dflt accounts em resetMs st modelId now) ! i
           = (accounts ! i)\<lparr>modelRateLimits :=
                modelRateLimits (fst (markRateLimited dflt accounts em resetMs st modelId now) ! i)\<rparr>
      \<and> (\<forall>j<length accounts. j \<noteq> i \<longrightarrow>
            fst (markRateLimited dflt accounts em resetMs st modelId now) ! j = accounts ! j)"
  proof (intro exI[of _ i] conjI)
    show "i < length accounts" by (rule i(1))
    show "email (accounts ! i) = em" by (rule i(2))
    show "\<forall>j<i. email (accounts ! j) \<noteq> em" by (rule i(3))
    show "snd (markRateLimited dflt accounts em resetMs st modelId now) = True" by (simp add: res)
    show "length (fst (markRateLimited dflt accounts em resetMs st modelId now)) = length accounts"
      by (simp add: res)
    show "\<forall>r. resetMs = Some r \<and> r \<noteq> 0 \<longrightarrow>
            limitOf (fst (markRateLimited dflt accounts em resetMs st modelId now) ! i) (propKey modelId)
              = Some \<lparr>isRateLimited = True, resetTime = Some (now + r)\<rparr>"
      unfolding lim using c1 by auto
    show "\<forall>c. (resetMs = None \<or> resetMs = Some 0) \<and> cooldownDurationMs st = Some c \<and> c \<noteq> 0 \<longrightarrow>
            limitOf (fst (markRateLimited dflt accounts em resetMs st modelId now) ! i) (propKey modelId)
              = Some \<lparr>isRateLimited = True, resetTime = Some (now + c)\<rparr>"
      unfolding lim using c2 by auto
    show "(resetMs = None \<or> resetMs = Some 0)
            \<and> (cooldownDurationMs st = None \<or> cooldownDurationMs st = Some 0) \<longrightarrow>
            limitOf (fst (markRateLimited dflt accounts em resetMs st modelId now) ! i) (propKey modelId)
              = Some \<lparr>isRateLimited = True, resetTime = Some (now + dflt)\<rparr>"
      unfolding lim using c3 by auto
    show "\<forall>k. k \<noteq> propKey modelId \<longrightarrow>
            limitOf (fst (markRateLimited dflt accounts em resetMs st modelId now) ! i) k
              = limitOf (accounts ! i) k"
      by (simp add: at limitOf_setLimit)
    show "fst (markRateLimited dflt accounts em resetMs st modelId now) ! i
           = (accounts ! i)\<lparr>modelRateLimits :=
                modelRateLimits (fst (markRateLimited dflt accounts em resetMs st modelId now) ! i)\<rparr>"
      unfolding at by (rule setLimit_fields)
    show "\<forall>j<length accounts. j \<noteq> i \<longrightarrow>
            fst (markRateLimited dflt accounts em resetMs st modelId now) ! j = accounts ! j"
      by (simp add: res)
  qed
qed


theorem markRateLimited_sets_record_witness:
  "''b'' \<in> email ` set [acctFree, acctLimited]
   \<and> Some (5000::int) = Some 5000 \<and> (5000::int) \<noteq> 0
   \<and> limitOf (fst (markRateLimited 10000 [acctFree, acctLimited] ''b'' (Some 5000)
          \<lparr>cooldownDurationMs = Some 3000\<rparr> (Some ''m'') 100) ! 1) ''m''
        = Some \<lparr>isRateLimited = True, resetTime = Some 5100\<rparr>
   \<and> fst (markRateLimited 10000 [acctFree, acctLimited] ''b'' (Some 5000)
          \<lparr>cooldownDurationMs = Some 3000\<rparr> (Some ''m'') 100) ! 0 = acctFree
   \<and> limitOf (fst (markRateLimited 10000 [acctFree, acctLimited] ''b'' None
          \<lparr>cooldownDurationMs = Some 3000\<rparr> (Some ''m'') 100) ! 1) ''m''
        = Some \<lparr>isRateLimited = True, resetTime = Some 3100\<rparr>
   \<and> limitOf (fst (markRateLimited 10000 [acctFree, acctLimited] ''b'' None
          \<lparr>cooldownDurationMs = None\<rparr> (Some ''m'') 100) ! 1) ''m''
        = Some \<lparr>isRateLimited = True, resetTime = Some 10100\<rparr>"
proof -
  have h: "''b'' \<in> email ` set [acctFree, acctLimited]" by (simp add: ex_defs)
  have e0: "email ([acctFree, acctLimited] ! 0) \<noteq> ''b''" by (simp add: ex_defs)
  have pk: "propKey (Some ''m'') = ''m''" by (simp add: propKey_def)
  have one: "i = 1" if "i < length [acctFree, acctLimited]" "email ([acctFree, acctLimited] ! i) = ''b''"
    for i using that e0 by (cases i) auto
  note A = mp[OF markRateLimited_sets_record[of "''b''" "[acctFree, acctLimited]" 10000 "Some 5000"
                "\<lparr>cooldownDurationMs = Some 3000\<rparr>" "Some ''m''" 100] h]
  note B = mp[OF markRateLimited_sets_record[of "''b''" "[acctFree, acctLimited]" 10000 None
                "\<lparr>cooldownDurationMs = Some 3000\<rparr>" "Some ''m''" 100] h]
  note C = mp[OF markRateLimited_sets_record[of "''b''" "[acctFree, acctLimited]" 10000 None
                "\<lparr>cooldownDurationMs = None\<rparr>" "Some ''m''" 100] h]
  have a: "limitOf (fst (markRateLimited 10000 [acctFree, acctLimited] ''b'' (Some 5000)
          \<lparr>cooldownDurationMs = Some 3000\<rparr> (Some ''m'') 100) ! 1) ''m''
        = Some \<lparr>isRateLimited = True, resetTime = Some 5100\<rparr>
     \<and> fst (markRateLimited 10000 [acctFree, acctLimited] ''b'' (Some 5000)
          \<lparr>cooldownDurationMs = Some 3000\<rparr> (Some ''m'') 100) ! 0 = acctFree"
    using A one unfolding pk by fastforce
  have b: "limitOf (fst (markRateLimited 10000 [acctFree, acctLimited] ''b'' None
          \<lparr>cooldownDurationMs = Some 3000\<rparr> (Some ''m'') 100) ! 1) ''m''
        = Some \<lparr>isRateLimited = True, resetTime = Some 3100\<rparr>"
    using B one unfolding pk by fastforce
  have c: "limitOf (fst (markRateLimited 10000 [acctFree, acctLimited] ''b'' None
          \<lparr>cooldownDurationMs = None\<rparr> (Some ''m'') 100) ! 1) ''m''
        = Some \<lparr>isRateLimited = True, resetTime = Some 10100\<rparr>"
    using C one unfolding pk by fastforce
  show ?thesis using h a b c by simp
qed

text \<open>
  C2 as stated fails for the non-null \<^verbatim>\<open>resetMs = 0\<close>: with a settings cooldown of
  3000 the record gets \<open>resetTime = now + 3000\<close>, not \<open>now + resetMs = now + 0\<close>.
\<close>

theorem markRateLimited_zero_counterexample:
  "''a'' \<in> email ` set [acctFree] \<and> Some (0::int) \<noteq> None
   \<and> limitOf (fst (markRateLimited 10000 [acctFree] ''a'' (Some 0)
          \<lparr>cooldownDurationMs = Some 3000\<rparr> (Some ''m'') 100) ! 0) ''m''
        = Some \<lparr>isRateLimited = True, resetTime = Some 3100\<rparr>
   \<and> Some \<lparr>isRateLimited = True, resetTime = Some (3100::int)\<rparr>
        \<noteq> Some \<lparr>isRateLimited = True, resetTime = Some (100 + 0)\<rparr>"
  by (simp add: markRateLimited_def setLimit_def cooldownMs_def ev_defs ex_defs)

lemma minWaitLoop_step:
  assumes "0 \<le> now"
  shows "minWaitLoop (acc # rest) m now mw =
           minWaitLoop rest m now (minStep mw (remainingWait acc m now))"
proof (cases "modelLimit acc m")
  case None
  then show ?thesis by (simp add: remainingWait_def minStep_def)
next
  case (Some l)
  show ?thesis
  proof (cases "resetTime l")
    case None
    with Some show ?thesis
      by (simp add: remainingWait_def minStep_def truthyNum_def)
  next
    case (Some t)
    with \<open>modelLimit acc m = Some l\<close> assms show ?thesis
      by (cases mw) (auto simp: remainingWait_def minStep_def truthyNum_def toNumber_def Let_def)
  qed
qed

lemma minWaitLoop_None:
  assumes "0 \<le> now"
  shows "(minWaitLoop xs m now mw = None)
           = (mw = None \<and> (\<forall>x \<in> set xs. remainingWait x m now = None))"
proof (induction xs arbitrary: mw)
  case Nil
  then show ?case by simp
next
  case (Cons x xs)
  show ?case
    unfolding minWaitLoop_step[OF assms] Cons.IH
    by (auto simp: minStep_def split: option.splits)
qed

lemma minWaitLoop_Some:
  assumes "0 \<le> now" "minWaitLoop xs m now mw = Some r"
  shows "(mw = Some r \<or> (\<exists>x \<in> set xs. remainingWait x m now = Some r))
         \<and> (\<forall>v. mw = Some v \<longrightarrow> r \<le> v)
         \<and> (\<forall>x \<in> set xs. \<forall>w. remainingWait x m now = Some w \<longrightarrow> r \<le> w)"
  using assms(2)
proof (induction xs arbitrary: mw)
  case Nil
  then show ?case by simp
next
  case (Cons x xs)
  from Cons.prems have "minWaitLoop xs m now (minStep mw (remainingWait x m now)) = Some r"
    by (simp only: minWaitLoop_step[OF assms(1)])
  from Cons.IH[OF this] show ?case
    by (cases mw; cases "remainingWait x m now") (auto simp: minStep_def split: if_splits)
qed

lemma minWait_over_flagged:
  assumes "0 \<le> now"
  shows
  "(\<not> isAllRateLimited accounts m now \<longrightarrow> getMinWaitTimeMs dflt accounts m now = 0)
   \<and> (isAllRateLimited accounts m now \<and> (\<exists>acc \<in> set accounts. remainingWait acc m now \<noteq> None) \<longrightarrow>
        (\<exists>acc \<in> set accounts.
            remainingWait acc m now = Some (getMinWaitTimeMs dflt accounts m now))
        \<and> (\<forall>acc \<in> set accounts. \<forall>w. remainingWait acc m now = Some w \<longrightarrow>
              getMinWaitTimeMs dflt accounts m now \<le> w))
   \<and> (isAllRateLimited accounts m now \<and> (\<forall>acc \<in> set accounts. remainingWait acc m now = None) \<longrightarrow>
        getMinWaitTimeMs dflt accounts m now = dflt)"
proof (intro conjI impI)
  assume "\<not> isAllRateLimited accounts m now"
  then show "getMinWaitTimeMs dflt accounts m now = 0" by (simp add: getMinWaitTimeMs_def)
next
  assume a: "isAllRateLimited accounts m now \<and> (\<exists>acc \<in> set accounts. remainingWait acc m now \<noteq> None)"
  then have "minWaitLoop accounts m now None \<noteq> None"
    by (simp add: minWaitLoop_None[OF assms])
  then obtain r where r: "minWaitLoop accounts m now None = Some r" by blast
  have g: "getMinWaitTimeMs dflt accounts m now = r" using a r by (simp add: getMinWaitTimeMs_def)
  from minWaitLoop_Some[OF assms r]
  show "\<exists>acc \<in> set accounts. remainingWait acc m now = Some (getMinWaitTimeMs dflt accounts m now)"
    and "\<forall>acc \<in> set accounts. \<forall>w. remainingWait acc m now = Some w \<longrightarrow>
              getMinWaitTimeMs dflt accounts m now \<le> w"
    unfolding g by auto
next
  assume a: "isAllRateLimited accounts m now \<and> (\<forall>acc \<in> set accounts. remainingWait acc m now = None)"
  then have "minWaitLoop accounts m now None = None"
    by (simp add: minWaitLoop_None[OF assms])
  then show "getMinWaitTimeMs dflt accounts m now = dflt"
    using a by (simp add: getMinWaitTimeMs_def)
qed

lemma ledgerAccount_limit:
  assumes "ledgerAccount acc" "modelLimit acc m = Some l"
  shows "ledgerRecord l"
proof -
  from assms(2) obtain al where al: "modelRateLimits acc = Some al" "map_of al (propKey m) = Some l"
    by (auto simp: modelLimit_def limitOf_def split: if_splits option.splits)
  from map_of_SomeD[OF al(2)] have "(propKey m, l) \<in> set al" .
  with assms(1) al(1) show ?thesis by (auto simp: ledgerAccount_def list_all_iff)
qed

lemma recordWait_ledger:
  assumes "ledgerAccount acc"
  shows "recordWait acc m now = remainingWait acc m now"
proof (cases "modelLimit acc m")
  case None
  then show ?thesis by (simp add: recordWait_def remainingWait_def)
next
  case (Some l)
  from ledgerAccount_limit[OF assms Some] show ?thesis
    by (auto simp: recordWait_def remainingWait_def Some ledgerRecord_def split: option.splits)
qed

lemma ledgerRecord_clearLimit: "ledgerRecord l \<Longrightarrow> ledgerRecord (clearLimit now l)"
  by (simp add: ledgerRecord_def clearLimit_def)

lemma ledgerAccount_clearAccount: "ledgerAccount acc \<Longrightarrow> ledgerAccount (clearAccount now acc)"
  by (cases "modelRateLimits acc")
     (auto simp: ledgerAccount_def clearAccount_def list_all_iff ledgerRecord_clearLimit)

lemma ledgerShaped_clearExpiredLimits:
  "ledgerShaped accounts \<Longrightarrow> ledgerShaped (fst (clearExpiredLimits accounts now))"
  by (simp add: ledgerShaped_def clearExpiredLimits_def list_all_iff ledgerAccount_clearAccount)

lemma ledgerShaped_resetAllRateLimits:
  "ledgerShaped (resetAllRateLimits accounts)"
  by (auto simp: ledgerShaped_def ledgerAccount_def ledgerRecord_def resetAllRateLimits_def
      list_all_iff split: option.splits)

lemma set_AList_update: "set (AList.update k v al) \<subseteq> insert (k, v) (set al)"
  by (induction al) auto

lemma ledgerShaped_markRateLimited:
  assumes "ledgerShaped accounts"
  shows "ledgerShaped (fst (markRateLimited dflt accounts em resetMs st modelId now))"
proof (cases "findIndex (\<lambda>a. email a = em) accounts")
  case None
  then show ?thesis using assms by (simp add: markRateLimited_def)
next
  case (Some i)
  let ?l = "\<lparr>isRateLimited = True, resetTime = Some (now + cooldownMs dflt resetMs st)\<rparr>"
  from findIndex_Some[OF Some] have i: "i < length accounts" by blast
  then have ai: "ledgerAccount (accounts ! i)"
    using assms by (simp add: ledgerShaped_def list_all_length)
  have "ledgerAccount (setLimit (accounts ! i) (propKey modelId) ?l)"
    using ai set_AList_update[of "propKey modelId" ?l]
    by (fastforce simp: ledgerAccount_def setLimit_def ledgerRecord_def list_all_iff
        split: option.splits)
  then show ?thesis using assms Some
    by (auto simp: markRateLimited_def ledgerShaped_def list_all_iff dest: set_update_subset_insert[THEN subsetD])
qed

text \<open>
  C5. Take an account list whose records are as the ledger writes them (a record that
  is not flagged \<^verbatim>\<open>isRateLimited\<close> has \<^verbatim>\<open>resetTime = null\<close>), and a clock reading
  \<open>now \<ge> 0\<close>. \<^verbatim>\<open>getMinWaitTimeMs\<close> returns 0 when not all accounts are rate-limited
  for the model (\<^verbatim>\<open>isAllRateLimited\<close> is false). Otherwise it returns the minimum
  positive value of \<open>resetTime - now\<close> across all accounts' records for the model: the
  value is attained by some account's record and is a lower bound for all of them.
  When all accounts are rate-limited and no record yields a positive remaining wait it
  returns \<open>DefaultCooldown\<close>.
\<close>

theorem getMinWaitTimeMs_min_positive_wait:
  assumes "0 \<le> now" and "ledgerShaped accounts"
  shows
  "(\<not> isAllRateLimited accounts m now \<longrightarrow> getMinWaitTimeMs dflt accounts m now = 0)
   \<and> (isAllRateLimited accounts m now \<and> (\<exists>acc \<in> set accounts. recordWait acc m now \<noteq> None) \<longrightarrow>
        (\<exists>acc \<in> set accounts.
            recordWait acc m now = Some (getMinWaitTimeMs dflt accounts m now))
        \<and> (\<forall>acc \<in> set accounts. \<forall>w. recordWait acc m now = Some w \<longrightarrow>
              getMinWaitTimeMs dflt accounts m now \<le> w))
   \<and> (isAllRateLimited accounts m now \<and> (\<forall>acc \<in> set accounts. recordWait acc m now = None) \<longrightarrow>
        getMinWaitTimeMs dflt accounts m now = dflt)"
proof -
  have eq: "\<And>acc. acc \<in> set accounts \<Longrightarrow> recordWait acc m now = remainingWait acc m now"
    using assms(2) by (intro recordWait_ledger) (simp add: ledgerShaped_def list_all_iff)
  from minWait_over_flagged[OF assms(1), of accounts m dflt] show ?thesis
    by (simp add: eq cong: bex_cong ball_cong)
qed


lemmas ledger_defs = ledgerShaped_def ledgerAccount_def ledgerRecord_def recordWait_def

theorem getMinWaitTimeMs_min_positive_wait_witness:
  "(0::int) \<le> 100
   \<and> ledgerShaped [acctLimited, acctFree]
   \<and> \<not> isAllRateLimited [acctLimited, acctFree] (Some ''m'') 100
   \<and> getMinWaitTimeMs 10000 [acctLimited, acctFree] (Some ''m'') 100 = 0
   \<and> ledgerShaped [acctLimited, acctSooner, acctInvalid]
   \<and> isAllRateLimited [acctLimited, acctSooner, acctInvalid] (Some ''m'') 100
   \<and> recordWait acctLimited (Some ''m'') 100 = Some 50
   \<and> recordWait acctSooner (Some ''m'') 100 = Some 30
   \<and> recordWait acctInvalid (Some ''m'') 100 = None
   \<and> getMinWaitTimeMs 10000 [acctLimited, acctSooner, acctInvalid] (Some ''m'') 100 = 30
   \<and> ledgerShaped [acctInvalid]
   \<and> isAllRateLimited [acctInvalid] (Some ''m'') 100
   \<and> getMinWaitTimeMs 10000 [acctInvalid] (Some ''m'') 100 = 10000"
proof -
  have now: "(0::int) \<le> 100" by simp
  have sa: "ledgerShaped [acctLimited, acctFree]"
    and sb: "ledgerShaped [acctLimited, acctSooner, acctInvalid]"
    and sc: "ledgerShaped [acctInvalid]"
    by (simp_all add: ledger_defs ex_defs)
  note A = getMinWaitTimeMs_min_positive_wait[OF now sa, of "Some ''m''" 10000]
  note B = getMinWaitTimeMs_min_positive_wait[OF now sb, of "Some ''m''" 10000]
  note C = getMinWaitTimeMs_min_positive_wait[OF now sc, of "Some ''m''" 10000]
  have ha: "\<not> isAllRateLimited [acctLimited, acctFree] (Some ''m'') 100"
    by (simp add: ev_defs ex_defs)
  have ra: "getMinWaitTimeMs 10000 [acctLimited, acctFree] (Some ''m'') 100 = 0"
    using A ha by blast
  have hb: "isAllRateLimited [acctLimited, acctSooner, acctInvalid] (Some ''m'') 100"
    by (simp add: ev_defs ex_defs)
  have w1: "recordWait acctLimited (Some ''m'') 100 = Some 50"
    and w2: "recordWait acctSooner (Some ''m'') 100 = Some 30"
    and w3: "recordWait acctInvalid (Some ''m'') 100 = None"
    by (simp_all add: ledger_defs ev_defs ex_defs)
  let ?r = "getMinWaitTimeMs 10000 [acctLimited, acctSooner, acctInvalid] (Some ''m'') 100"
  have ex: "\<exists>acc \<in> set [acctLimited, acctSooner, acctInvalid]. recordWait acc (Some ''m'') 100 \<noteq> None"
    using w1 by simp
  from mp[OF conjunct1[OF conjunct2[OF B]] conjI[OF hb ex]]
  have att: "\<exists>acc \<in> set [acctLimited, acctSooner, acctInvalid].
               recordWait acc (Some ''m'') 100 = Some ?r"
    and lb: "\<forall>acc \<in> set [acctLimited, acctSooner, acctInvalid]. \<forall>w.
               recordWait acc (Some ''m'') 100 = Some w \<longrightarrow> ?r \<le> w"
    by blast+
  from att have "?r = 50 \<or> ?r = 30" using w1 w2 w3 by auto
  moreover from lb w2 have "?r \<le> 30" by simp
  ultimately have rb: "?r = 30" by auto
  have hc: "isAllRateLimited [acctInvalid] (Some ''m'') 100"
    by (simp add: ev_defs ex_defs)
  have "\<forall>acc \<in> set [acctInvalid]. recordWait acc (Some ''m'') 100 = None"
    using w3 by simp
  with C hc have rc: "getMinWaitTimeMs 10000 [acctInvalid] (Some ''m'') 100 = 10000"
    by blast
  show ?thesis using now sa ha ra sb hb w1 w2 w3 rb sc hc rc by blast
qed

lemma markInvalid_distinct:
  assumes "distinct (map email accounts)" "i < length accounts"
  shows "fst (markInvalid accounts (email (accounts ! i)) reason now) =
           accounts[i := (accounts ! i)\<lparr>isInvalid := True, invalidReason := Some reason,
                                        invalidAt := Some now\<rparr>]"
proof -
  have "findIndex (\<lambda>a. email a = email (accounts ! i)) accounts \<noteq> None"
    using assms(2) by (auto simp: findIndex_None)
  then obtain k where k: "findIndex (\<lambda>a. email a = email (accounts ! i)) accounts = Some k" by blast
  from findIndex_Some[OF k] have "k < length accounts" "email (accounts ! k) = email (accounts ! i)"
    by blast+
  then have "k < length (map email accounts)" "i < length (map email accounts)"
    "map email accounts ! k = map email accounts ! i" using assms(2) by simp_all
  then have "k = i" using nth_eq_iff_index_eq[OF assms(1)] by blast
  then show ?thesis using k by (simp add: markInvalid_def)
qed

text \<open>
  C7. Take an account of the manager's list (emails are the unique key of the list)
  whose source is \<^verbatim>\<open>oauth\<close>, which has a refresh token, and for which the token cache has
  no fresh entry, so that the refresh-token exchange takes place.
  \<^enum> When the exchange fails with a message that \<^verbatim>\<open>isNetworkError\<close> accepts, the error
    raised is tagged \<^verbatim>\<open>AUTH_NETWORK_ERROR\<close> and nothing changes: the account's
    \<^verbatim>\<open>isInvalid\<close> flag is as before.
  \<^enum> When it fails with any other message, the account gets \<^verbatim>\<open>isInvalid = true\<close> with the
    message as \<^verbatim>\<open>invalidReason\<close>, and the error raised is tagged \<^verbatim>\<open>AUTH_INVALID\<close>.
  \<^enum> When it succeeds, the token is returned and the account's \<^verbatim>\<open>isInvalid\<close> flag is
    false afterwards; no other account changes.
\<close>

theorem getTokenForAccount_oauth_refresh:
  assumes "i < length accounts" "distinct (map email accounts)"
    and "source (accounts ! i) = ''oauth''" "refreshToken (accounts ! i) \<noteq> []"
    and "\<forall>cached. cache (email (accounts ! i)) = Some cached \<longrightarrow> \<not> now - extractedAt cached < ttl"
  shows
  "(\<forall>message. refreshOutcome world = Inl message \<and> isNetworkError message \<longrightarrow>
      getTokenForAccount ttl world accounts i cache now =
        ((accounts, cache), Inl (''AUTH_NETWORK_ERROR: '' @ message)))
   \<and> (\<forall>message. refreshOutcome world = Inl message \<and> \<not> isNetworkError message \<longrightarrow>
      getTokenForAccount ttl world accounts i cache now =
        ((accounts[i := (accounts ! i)\<lparr>isInvalid := True, invalidReason := Some message,
                                        invalidAt := Some now\<rparr>], cache),
         Inl (''AUTH_INVALID: '' @ email (accounts ! i) @ '': '' @ message)))
   \<and> (\<forall>tok. refreshOutcome world = Inr tok \<longrightarrow>
      snd (getTokenForAccount ttl world accounts i cache now) = Inr tok
      \<and> \<not> isInvalid (fst (fst (getTokenForAccount ttl world accounts i cache now)) ! i)
      \<and> (\<forall>j<length accounts. j \<noteq> i \<longrightarrow>
            fst (fst (getTokenForAccount ttl world accounts i cache now)) ! j = accounts ! j))"
proof -
  have miss: "(case cache (email (accounts ! i)) of
              None \<Rightarrow> None
            | Some cached \<Rightarrow> if now - extractedAt cached < ttl then Some (token cached) else None) = None"
    using assms(5) by (auto split: option.splits)
  show ?thesis
    using assms(1,3,4) markInvalid_distinct[OF assms(2,1)]
    by (auto simp: getTokenForAccount_def Let_def miss)
qed


theorem getTokenForAccount_oauth_refresh_witness:
  "(1::nat) < length [acctFree, acctInvalid] \<and> distinct (map email [acctFree, acctInvalid])
   \<and> source ([acctFree, acctInvalid] ! 1) = ''oauth''
   \<and> refreshToken ([acctFree, acctInvalid] ! 1) \<noteq> []
   \<and> isNetworkError ''fetch failed''
   \<and> getTokenForAccount 300000 \<lparr>refreshOutcome = Inl ''fetch failed'', databaseOutcome = Inl []\<rparr>
        [acctFree, acctInvalid] 1 Map.empty 100
       = (([acctFree, acctInvalid], Map.empty), Inl ''AUTH_NETWORK_ERROR: fetch failed'')
   \<and> \<not> isNetworkError ''invalid_grant''
   \<and> snd (getTokenForAccount 300000 \<lparr>refreshOutcome = Inl ''invalid_grant'', databaseOutcome = Inl []\<rparr>
        [acctInvalid, acctFree] 1 Map.empty 100) = Inl ''AUTH_INVALID: a: invalid_grant''
   \<and> fst (fst (getTokenForAccount 300000
          \<lparr>refreshOutcome = Inl ''invalid_grant'', databaseOutcome = Inl []\<rparr>
          [acctInvalid, acctFree] 1 Map.empty 100))
       = [acctInvalid, acctFree\<lparr>isInvalid := True, invalidReason := Some ''invalid_grant'',
                                 invalidAt := Some 100\<rparr>]
   \<and> isInvalid ([acctFree, acctInvalid] ! 1)
   \<and> snd (getTokenForAccount 300000 \<lparr>refreshOutcome = Inr ''tok'', databaseOutcome = Inl []\<rparr>
        [acctFree, acctInvalid] 1 Map.empty 100) = Inr ''tok''
   \<and> \<not> isInvalid (fst (fst (getTokenForAccount 300000
          \<lparr>refreshOutcome = Inr ''tok'', databaseOutcome = Inl []\<rparr>
          [acctFree, acctInvalid] 1 Map.empty 100)) ! 1)"
proof -
  have h1: "(1::nat) < length [acctFree, acctInvalid]" "distinct (map email [acctFree, acctInvalid])"
    "source ([acctFree, acctInvalid] ! 1) = ''oauth''" "refreshToken ([acctFree, acctInvalid] ! 1) \<noteq> []"
    by (simp_all add: ex_defs)
  have h2: "(1::nat) < length [acctInvalid, acctFree]" "distinct (map email [acctInvalid, acctFree])"
    "source ([acctInvalid, acctFree] ! 1) = ''oauth''" "refreshToken ([acctInvalid, acctFree] ! 1) \<noteq> []"
    by (simp_all add: ex_defs)
  have e1: "\<forall>cached. Map.empty (email ([acctFree, acctInvalid] ! 1)) = Some cached
              \<longrightarrow> \<not> 100 - extractedAt cached < (300000::int)"
    and e2: "\<forall>cached. Map.empty (email ([acctInvalid, acctFree] ! 1)) = Some cached
              \<longrightarrow> \<not> 100 - extractedAt cached < (300000::int)"
    by simp_all
  have n1: "isNetworkError ''fetch failed''" by (simp add: str_defs)
  have n2: "\<not> isNetworkError ''invalid_grant''" by (simp add: str_defs)
  have inv: "isInvalid ([acctFree, acctInvalid] ! 1)" by (simp add: ex_defs)
  note A = getTokenForAccount_oauth_refresh[OF h1 e1,
      of "\<lparr>refreshOutcome = Inl ''fetch failed'', databaseOutcome = Inl []\<rparr>"]
  note B = getTokenForAccount_oauth_refresh[OF h2 e2,
      of "\<lparr>refreshOutcome = Inl ''invalid_grant'', databaseOutcome = Inl []\<rparr>"]
  note C = getTokenForAccount_oauth_refresh[OF h1 e1,
      of "\<lparr>refreshOutcome = Inr ''tok'', databaseOutcome = Inl []\<rparr>"]
  have a: "getTokenForAccount 300000 \<lparr>refreshOutcome = Inl ''fetch failed'', databaseOutcome = Inl []\<rparr>
        [acctFree, acctInvalid] 1 Map.empty 100
       = (([acctFree, acctInvalid], Map.empty), Inl ''AUTH_NETWORK_ERROR: fetch failed'')"
    using A n1 by simp
  have b0: "getTokenForAccount 300000 \<lparr>refreshOutcome = Inl ''invalid_grant'', databaseOutcome = Inl []\<rparr>
        [acctInvalid, acctFree] 1 Map.empty 100
       = (([acctInvalid, acctFree][1 := ([acctInvalid, acctFree] ! 1)
              \<lparr>isInvalid := True, invalidReason := Some ''invalid_grant'', invalidAt := Some 100\<rparr>],
           Map.empty),
          Inl (''AUTH_INVALID: '' @ email ([acctInvalid, acctFree] ! 1) @ '': '' @ ''invalid_grant''))"
    using B n2 by simp
  have b: "snd (getTokenForAccount 300000 \<lparr>refreshOutcome = Inl ''invalid_grant'', databaseOutcome = Inl []\<rparr>
        [acctInvalid, acctFree] 1 Map.empty 100) = Inl ''AUTH_INVALID: a: invalid_grant''"
    "fst (fst (getTokenForAccount 300000
          \<lparr>refreshOutcome = Inl ''invalid_grant'', databaseOutcome = Inl []\<rparr>
          [acctInvalid, acctFree] 1 Map.empty 100))
       = [acctInvalid, acctFree\<lparr>isInvalid := True, invalidReason := Some ''invalid_grant'',
                                 invalidAt := Some 100\<rparr>]"
    unfolding b0 by (simp_all add: ex_defs)
  have c: "snd (getTokenForAccount 300000 \<lparr>refreshOutcome = Inr ''tok'', databaseOutcome = Inl []\<rparr>
        [acctFree, acctInvalid] 1 Map.empty 100) = Inr ''tok''"
    "\<not> isInvalid (fst (fst (getTokenForAccount 300000
          \<lparr>refreshOutcome = Inr ''tok'', databaseOutcome = Inl []\<rparr>
          [acctFree, acctInvalid] 1 Map.empty 100)) ! 1)"
    using C by simp_all
  show ?thesis using h1 n1 a n2 b inv c by blast
qed

lemma fallbacks_sleep [simp]: "fallbacks (sleep ms w) = fallbacks w"
  by (simp add: sleep_def)

lemma fallbacks_obtainAccount:
  "fallbacks (fst (obtainAccount cfg model w)) = fallbacks w"
  by (simp add: obtainAccount_def Let_def split_def)

lemma fallbacks_tryAccount:
  "fallbacks (fst (tryAccount cfg ev model i w)) = fallbacks w"
  by (simp add: tryAccount_def Let_def split_def split: sum.splits option.splits
      endpointsExit.splits lastError.splits)

lemma fallbacks_handleError:
  "fallbacks (fst (handleError cfg model message w)) = fallbacks w"
  by (simp add: handleError_def Let_def)

lemma sendLoop_no_fallback:
  "\<not> fb \<Longrightarrow> fallbacks (fst (sendLoop cfg env model fb maxAttempts attempt w)) = fallbacks w"
proof (induction cfg env model fb maxAttempts attempt w rule: sendLoop.induct)
  case (1 cfg env model fallbackEnabled maxAttempts attempt w)
  note IH = "1.IH" and nf = "1.prems"
  show ?case
  proof (cases "attempt < maxAttempts")
    case False
    then show ?thesis by (subst sendLoop.simps) simp
  next
    case lt: True
    then have nn: "\<not> \<not> attempt < maxAttempts" by simp
    obtain w1 r where ob: "obtainAccount cfg model w = (w1, r)" by force
    have f1: "fallbacks w1 = fallbacks w"
      using fallbacks_obtainAccount[of cfg model w] ob by simp
    show ?thesis
    proof (cases r)
      case (Inl err)
      then show ?thesis using lt ob f1 by (subst sendLoop.simps) simp
    next
      case (Inr a)
      show ?thesis
      proof (cases a)
        case None
        then show ?thesis using lt ob f1 Inr nf by (subst sendLoop.simps) simp
      next
        case (Some i)
        obtain w2 ex where tr:
          "tryAccount cfg (env (ticks w1)) model i (w1\<lparr>ticks := Suc (ticks w1)\<rparr>) = (w2, ex)"
          by force
        have f2: "fallbacks w2 = fallbacks w"
          using fallbacks_tryAccount[of cfg "env (ticks w1)" model i "w1\<lparr>ticks := Suc (ticks w1)\<rparr>"]
            tr f1 by simp
        show ?thesis
        proof (cases ex)
          case (Success response)
          then show ?thesis using lt ob Inr Some tr f2 by (subst sendLoop.simps) simp
        next
          case FellThrough
          have "fallbacks (fst (sendLoop cfg env model fallbackEnabled maxAttempts (Suc attempt) w2))
                 = fallbacks w2"
            by (rule IH(3)[OF nn ob[symmetric] Inr Some tr[symmetric] FellThrough nf])
          then show ?thesis using lt ob Inr Some tr f2 FellThrough
            by (subst sendLoop.simps) simp
        next
          case (Raised message)
          obtain w3 rx where he: "handleError cfg model message w2 = (w3, rx)" by force
          have f3: "fallbacks w3 = fallbacks w"
            using fallbacks_handleError[of cfg model message w2] he f2 by simp
          show ?thesis
          proof (cases rx)
            case (Failed m)
            then show ?thesis using lt ob Inr Some tr Raised he f3
              by (subst sendLoop.simps) simp
          next
            case NextAttempt
            have "fallbacks (fst (sendLoop cfg env model fallbackEnabled maxAttempts (Suc attempt) w3))
                 = fallbacks w3"
              by (rule IH(2)[OF nn ob[symmetric] Inr Some tr[symmetric] Raised
                  he[symmetric] NextAttempt nf])
            then show ?thesis using lt ob Inr Some tr Raised he f3 NextAttempt
              by (subst sendLoop.simps) simp
          qed
        qed
      qed
    qed
  qed
qed


lemma sendLoop_no_account:
  assumes "attempt < maxAttempts" "obtainAccount cfg model w = (w1, Inr None)"
  shows "sendLoop cfg env model fallbackEnabled maxAttempts attempt w =
           (if fallbackEnabled \<and> truthyStr (getFallbackModel cfg model)
            then sendMessage cfg env (getFallbackModel cfg model) False
                   (w1\<lparr>fallbacks := fallbacks w1 @ [propKey (getFallbackModel cfg model)]\<rparr>)
            else (w1, Inl NoAccountsAvailable))"
  using assms by (subst sendLoop.simps) (simp add: sendMessage_def)

text \<open>
  C4. Take a round of the outer loop (\<open>attempt < maxAttempts\<close>) whose head ends without
  an account: \<open>obtainAccount\<close> gives \<^verbatim>\<open>null\<close> and the state \<open>w1\<close>.
  \<^enum> When \<^verbatim>\<open>fallbackEnabled\<close> is true and \<^verbatim>\<open>getFallbackModel\<close> gives a model, the dispatcher
    returns what \<^verbatim>\<open>sendMessage\<close> returns from \<open>w1\<close> for the request with that model and
    \<^verbatim>\<open>fallbackEnabled = false\<close>; in the whole run exactly one fallback is announced, this
    one.
  \<^enum> Otherwise it raises \<^verbatim>\<open>No accounts available\<close>.
  \<^enum> A call with \<^verbatim>\<open>fallbackEnabled = false\<close> announces no fallback at all: the recursive
    call never moves on to a second fallback model.
\<close>

theorem sendMessage_fallback_one_level:
  "(attempt < maxAttempts \<and> obtainAccount cfg model w = (w1, Inr None)
      \<and> fallbackEnabled \<and> truthyStr (getFallbackModel cfg model) \<longrightarrow>
        sendLoop cfg env model fallbackEnabled maxAttempts attempt w =
          sendMessage cfg env (getFallbackModel cfg model) False
            (w1\<lparr>fallbacks := fallbacks w1 @ [propKey (getFallbackModel cfg model)]\<rparr>)
        \<and> fallbacks (fst (sendLoop cfg env model fallbackEnabled maxAttempts attempt w)) =
            fallbacks w @ [propKey (getFallbackModel cfg model)])
   \<and> (attempt < maxAttempts \<and> obtainAccount cfg model w = (w1, Inr None)
      \<and> \<not> (fallbackEnabled \<and> truthyStr (getFallbackModel cfg model)) \<longrightarrow>
        sendLoop cfg env model fallbackEnabled maxAttempts attempt w = (w1, Inl NoAccountsAvailable))
   \<and> fallbacks (fst (sendMessage cfg env model False w)) = fallbacks w"
proof (intro conjI impI)
  assume a: "attempt < maxAttempts \<and> obtainAccount cfg model w = (w1, Inr None)
      \<and> fallbackEnabled \<and> truthyStr (getFallbackModel cfg model)"
  then show eq: "sendLoop cfg env model fallbackEnabled maxAttempts attempt w =
          sendMessage cfg env (getFallbackModel cfg model) False
            (w1\<lparr>fallbacks := fallbacks w1 @ [propKey (getFallbackModel cfg model)]\<rparr>)"
    using sendLoop_no_account[of attempt maxAttempts cfg model w w1 env fallbackEnabled] by simp
  have f1: "fallbacks w1 = fallbacks w"
    using a fallbacks_obtainAccount[of cfg model w] by simp
  show "fallbacks (fst (sendLoop cfg env model fallbackEnabled maxAttempts attempt w)) =
            fallbacks w @ [propKey (getFallbackModel cfg model)]"
    unfolding eq sendMessage_def by (simp add: sendLoop_no_fallback f1)
next
  assume "attempt < maxAttempts \<and> obtainAccount cfg model w = (w1, Inr None)
      \<and> \<not> (fallbackEnabled \<and> truthyStr (getFallbackModel cfg model))"
  then show "sendLoop cfg env model fallbackEnabled maxAttempts attempt w = (w1, Inl NoAccountsAvailable)"
    using sendLoop_no_account[of attempt maxAttempts cfg model w w1 env fallbackEnabled] by auto
next
  show "fallbacks (fst (sendMessage cfg env model False w)) = fallbacks w"
    unfolding sendMessage_def by (simp add: sendLoop_no_fallback)
qed

lemma obtain_invalid:
  "obtainAccount cfgEx (Some ''gemini-3-pro-high'') (worldEx [acctInvalid])
     = ((worldEx [acctInvalid])\<lparr>clock := 10100\<rparr>, Inr None)"
  by (simp add: disp_defs sel_defs wait_defs ev_defs ex_defs)


lemma fallback_of_gemini:
  "getFallbackModel cfgEx (Some ''gemini-3-pro-high'') = Some ''claude-opus-4-5-thinking''"
  by (simp add: cfgEx_def MODEL_FALLBACK_MAP_def)

lemma obtain_invalid_fallback:
  "obtainAccount cfgEx (Some ''claude-opus-4-5-thinking'')
     ((worldEx [acctInvalid])\<lparr>clock := 10100, fallbacks := [''claude-opus-4-5-thinking'']\<rparr>)
     = ((worldEx [acctInvalid])\<lparr>clock := 20100, fallbacks := [''claude-opus-4-5-thinking'']\<rparr>,
        Inr None)"
  by (simp add: disp_defs sel_defs wait_defs ev_defs ex_defs)

theorem sendMessage_fallback_one_level_witness:
  "(0::nat) < 5
   \<and> obtainAccount cfgEx (Some ''gemini-3-pro-high'') (worldEx [acctInvalid])
       = ((worldEx [acctInvalid])\<lparr>clock := 10100\<rparr>, Inr None)
   \<and> truthyStr (getFallbackModel cfgEx (Some ''gemini-3-pro-high''))
   \<and> sendLoop cfgEx (\<lambda>n. envEx []) (Some ''gemini-3-pro-high'') True 5 0 (worldEx [acctInvalid])
       = ((worldEx [acctInvalid])\<lparr>clock := 20100, fallbacks := [''claude-opus-4-5-thinking'']\<rparr>,
          Inl NoAccountsAvailable)
   \<and> sendLoop cfgEx (\<lambda>n. envEx []) (Some ''gemini-3-pro-high'') False 5 0 (worldEx [acctInvalid])
       = ((worldEx [acctInvalid])\<lparr>clock := 10100\<rparr>, Inl NoAccountsAvailable)"
proof -
  let ?g = "Some ''gemini-3-pro-high''"
  let ?c = "Some ''claude-opus-4-5-thinking''"
  let ?w = "worldEx [acctInvalid]"
  let ?w1 = "?w\<lparr>clock := 10100\<rparr>"
  let ?w1' = "?w\<lparr>clock := 10100, fallbacks := [''claude-opus-4-5-thinking'']\<rparr>"
  let ?w2 = "?w\<lparr>clock := 20100, fallbacks := [''claude-opus-4-5-thinking'']\<rparr>"
  have lt: "(0::nat) < 5" by simp
  have tr: "truthyStr (getFallbackModel cfgEx ?g)"
    by (simp add: fallback_of_gemini truthyStr_def)
  have ntr: "\<not> (False \<and> truthyStr (getFallbackModel cfgEx ?c))" by simp
  have ntr': "\<not> (False \<and> truthyStr (getFallbackModel cfgEx ?g))" by simp
  have w1': "?w1\<lparr>fallbacks := fallbacks ?w1 @ [propKey (getFallbackModel cfgEx ?g)]\<rparr> = ?w1'"
    by (simp add: fallback_of_gemini propKey_def worldEx_def)
  have ma: "max (maxRetries cfgEx) (length (m_accounts (mgr ?w1')) + 1) = 5"
    by (simp add: cfgEx_def worldEx_def mgrEx_def)
  note A = sendMessage_fallback_one_level[of 0 5 cfgEx ?g ?w ?w1 True "\<lambda>n. envEx []"]
  note B = sendMessage_fallback_one_level[of 0 5 cfgEx ?c ?w1' ?w2 False "\<lambda>n. envEx []"]
  note C = sendMessage_fallback_one_level[of 0 5 cfgEx ?g ?w ?w1 False "\<lambda>n. envEx []"]
  have pa: "0 < (5::nat) \<and> obtainAccount cfgEx ?g ?w = (?w1, Inr None)
      \<and> True \<and> truthyStr (getFallbackModel cfgEx ?g)"
    using obtain_invalid tr by simp
  from conjunct1[OF mp[OF conjunct1[OF A] pa]]
  have a: "sendLoop cfgEx (\<lambda>n. envEx []) ?g True 5 0 ?w = sendMessage cfgEx (\<lambda>n. envEx []) ?c False ?w1'"
    by (simp add: fallback_of_gemini propKey_def worldEx_def)
  have pb: "0 < (5::nat) \<and> obtainAccount cfgEx ?c ?w1' = (?w2, Inr None)
      \<and> \<not> (False \<and> truthyStr (getFallbackModel cfgEx ?c))"
    using obtain_invalid_fallback by simp
  from mp[OF conjunct1[OF conjunct2[OF B]] pb]
  have b: "sendLoop cfgEx (\<lambda>n. envEx []) ?c False 5 0 ?w1' = (?w2, Inl NoAccountsAvailable)" .
  have pc: "0 < (5::nat) \<and> obtainAccount cfgEx ?g ?w = (?w1, Inr None)
      \<and> \<not> (False \<and> truthyStr (getFallbackModel cfgEx ?g))"
    using obtain_invalid by simp
  from mp[OF conjunct1[OF conjunct2[OF C]] pc]
  have c: "sendLoop cfgEx (\<lambda>n. envEx []) ?g False 5 0 ?w = (?w1, Inl NoAccountsAvailable)" .
  have r: "sendLoop cfgEx (\<lambda>n. envEx []) ?g True 5 0 ?w = (?w2, Inl NoAccountsAvailable)"
    unfolding a sendMessage_def ma by (rule b)
  show ?thesis using lt obtain_invalid tr r c by blast
qed

lemma truthyVals_Cons:
  "truthyVals (x # xs) = (if truthyNum x then [toNumber x] else []) @ truthyVals xs"
  by (auto simp: truthyVals_def truthyNum_def toNumber_def split: option.splits)

lemma Min_drop:
  assumes "finite S" "(a::int) \<le> b"
  shows "Min (insert b (insert a S)) = Min (insert a S)"
proof -
  have "Min (insert a S) \<le> a" using assms(1) by (intro Min_le) simp_all
  then have "min b (Min (insert a S)) = Min (insert a S)" using assms(2) by simp
  then show ?thesis using Min_insert[of "insert a S" b] assms(1) by simp
qed

lemma foldl_keepMin:
  "(truthyVals (prev # xs) = [] \<longrightarrow> foldl keepMin prev xs = prev)
   \<and> (truthyVals (prev # xs) \<noteq> [] \<longrightarrow>
        truthyNum (foldl keepMin prev xs)
        \<and> toNumber (foldl keepMin prev xs) = Min (set (truthyVals (prev # xs))))"
proof (induction xs arbitrary: prev)
  case Nil
  have e: "truthyVals [] = []" by (simp add: truthyVals_def)
  show ?case by (simp add: truthyVals_Cons e)
next
  case (Cons x xs)
  have fin: "finite (set (truthyVals xs))" by simp
  show ?case
  proof (cases "truthyNum x")
    case False
    then have k: "keepMin prev x = prev" by (simp add: keepMin_def)
    have t: "truthyVals (prev # x # xs) = truthyVals (prev # xs)"
      using False by (simp add: truthyVals_Cons)
    show ?thesis using Cons.IH[of prev] by (simp add: k t)
  next
    case tx: True
    show ?thesis
    proof (cases "truthyNum prev")
      case False
      then have k: "keepMin prev x = x" using tx by (simp add: keepMin_def)
      have t: "truthyVals (prev # x # xs) = truthyVals (x # xs)"
        using False by (simp add: truthyVals_Cons)
      have ne: "truthyVals (x # xs) \<noteq> []" using tx by (simp add: truthyVals_Cons)
      show ?thesis using Cons.IH[of x] ne by (simp add: k t)
    next
      case tp: True
      show ?thesis
      proof (cases "toNumber x < toNumber prev")
        case True
        then have k: "keepMin prev x = x" using tx by (simp add: keepMin_def)
        have ne: "truthyVals (x # xs) \<noteq> []" using tx by (simp add: truthyVals_Cons)
        have m: "Min (set (truthyVals (prev # x # xs))) = Min (set (truthyVals (x # xs)))"
          using tx tp True Min_drop[OF fin, of "toNumber x" "toNumber prev"]
          by (simp add: truthyVals_Cons)
        show ?thesis using Cons.IH[of x] ne tx tp by (simp add: k m) (simp add: truthyVals_Cons)
      next
        case False
        then have k: "keepMin prev x = prev" using tp by (simp add: keepMin_def)
        have ne: "truthyVals (prev # xs) \<noteq> []" using tp by (simp add: truthyVals_Cons)
        have m: "Min (set (truthyVals (prev # x # xs))) = Min (set (truthyVals (prev # xs)))"
          using tx tp False Min_drop[OF fin, of "toNumber prev" "toNumber x"]
          by (simp add: truthyVals_Cons insert_commute)
        show ?thesis using Cons.IH[of prev] ne tx tp by (simp add: k m) (simp add: truthyVals_Cons)
      qed
    qed
  qed
qed


lemma parsedResets_truthyVals: "parsedResets rs = truthyVals (map resetOf rs)"
  by (induction rs)
     (auto simp: parsedResets_def truthyVals_def resetOf_def split: reply.splits option.splits)

lemma keep429_Is429:
  "\<exists>etx. keep429 (Is429 prev ptxt) ms etxt = Is429 (keepMin prev ms) etx"
  by (auto simp: keep429_def keepMin_def)

lemma tryEndpoints_429_step:
  "tryEndpoints cfg em (Response 429 etxt ms h # rest) lastErr st
     = tryEndpoints cfg em rest (keep429 lastErr ms etxt) st"
  by (cases st) simp

lemma tryEndpoints_all429:
  "list_all is429 rs \<Longrightarrow>
     \<exists>etx. tryEndpoints cfg em rs (Is429 prev ptxt) st
              = (st, Exhausted (Is429 (foldl keepMin prev (map resetOf rs)) etx))"
proof (induction rs arbitrary: prev ptxt)
  case Nil
  then show ?case by simp
next
  case (Cons r rs)
  from Cons.prems obtain etxt ms h where r: "r = Response 429 etxt ms h"
    by (cases r) (auto simp: is429_def)
  obtain etx where k: "keep429 (Is429 prev ptxt) ms etxt = Is429 (keepMin prev ms) etx"
    using keep429_Is429 by blast
  from Cons.prems have "list_all is429 rs" by simp
  from Cons.IH[OF this, of "keepMin prev ms" etx] show ?case
    by (simp add: r tryEndpoints_429_step k resetOf_def)
qed

lemma tryEndpoints_all429_start:
  assumes "rs \<noteq> []" "list_all is429 rs"
  shows "\<exists>r etx. tryEndpoints cfg em rs NoError st = (st, Exhausted (Is429 r etx))
           \<and> cooldownMs dflt r sett
               = (if parsedResets rs = [] then fallbackCooldown dflt sett
                  else Min (set (parsedResets rs)))"
proof -
  from assms obtain etxt ms h rest where rs: "rs = Response 429 etxt ms h # rest"
    and rest: "list_all is429 rest"
    by (cases rs; cases "hd rs") (auto simp: is429_def)
  from tryEndpoints_all429[OF rest, of cfg em ms etxt st] obtain etx where
    t: "tryEndpoints cfg em rest (Is429 ms etxt) st
          = (st, Exhausted (Is429 (foldl keepMin ms (map resetOf rest)) etx))"
    by blast
  let ?r = "foldl keepMin ms (map resetOf rest)"
  have run: "tryEndpoints cfg em rs NoError st = (st, Exhausted (Is429 ?r etx))"
    by (simp add: rs tryEndpoints_429_step keep429_def t)
  have pv: "parsedResets rs = truthyVals (ms # map resetOf rest)"
    by (simp add: parsedResets_truthyVals rs resetOf_def)
  have "cooldownMs dflt ?r sett
               = (if parsedResets rs = [] then fallbackCooldown dflt sett
                  else Min (set (parsedResets rs)))"
  proof (cases "parsedResets rs = []")
    case True
    with foldl_keepMin[of ms "map resetOf rest"] pv have "?r = ms" by simp
    moreover have "\<not> truthyNum ms" using True pv by (simp add: truthyVals_Cons split: if_splits)
    ultimately show ?thesis using True
      by (auto simp: cooldownMs_def fallbackCooldown_def truthyNum_def toNumber_def
          split: option.splits)
  next
    case False
    with foldl_keepMin[of ms "map resetOf rest"] pv
    have "truthyNum ?r" "toNumber ?r = Min (set (parsedResets rs))" by simp_all
    then show ?thesis using False by (simp add: cooldownMs_def)
  qed
  with run show ?thesis by blast
qed



lemma tryEndpoints_handled2xx:
  "list_ex isHandled2xx rs \<Longrightarrow> snd (tryEndpoints cfg em rs lastErr st) \<noteq> Exhausted e"
proof (induction rs arbitrary: lastErr st)
  case Nil
  then show ?case by simp
next
  case (Cons r rs)
  show ?case
  proof (cases r)
    case (FetchFails message)
    then have "\<not> isHandled2xx r" by (simp add: isHandled2xx_def)
    with Cons.prems have "list_ex isHandled2xx rs" by simp
    from Cons.IH[OF this] show ?thesis by (simp add: FetchFails)
  next
    case (Response status errorText resetMs handled)
    obtain cache clk where st: "st = (cache, clk)" by force
    show ?thesis
    proof (cases "isHandled2xx r")
      case True
      then obtain response where "handled = Inr response" "200 \<le> status" "status \<le> 299"
        by (auto simp: isHandled2xx_def Response split: sum.splits)
      then show ?thesis by (simp add: Response st)
    next
      case False
      with Cons.prems have rest: "list_ex isHandled2xx rs" by simp
      note IH = Cons.IH[OF rest]
      show ?thesis
        unfolding Response st tryEndpoints.simps Let_def
        by (cases handled) (simp_all add: IH)
    qed
  qed
qed


lemma map_update_same:
  assumes that: "f y = f (xs ! i)"
  shows "map f (xs[i := y]) = map f xs"
proof (cases "i < length xs")
  case True
  then show ?thesis using that by (simp add: map_update list_update_same_conv)
next
  case False
  then show ?thesis by (simp add: list_update_beyond)
qed

lemma markInvalid_limits:
  "map modelRateLimits (fst (markInvalid accounts em reason now)) = map modelRateLimits accounts"
  by (simp add: markInvalid_def map_update_same split: option.splits)

lemma markInvalid_emails:
  "map email (fst (markInvalid accounts em reason now)) = map email accounts"
  by (simp add: markInvalid_def map_update_same split: option.splits)

lemma getToken_limits:
  "map modelRateLimits (fst (fst (getTokenForAccount ttl world accounts i cache now)))
     = map modelRateLimits accounts"
  by (simp add: getTokenForAccount_def Let_def markInvalid_limits map_update_same
      split: option.splits sum.splits)

lemma getToken_emails:
  "map email (fst (fst (getTokenForAccount ttl world accounts i cache now))) = map email accounts"
  by (simp add: getTokenForAccount_def Let_def markInvalid_emails map_update_same
      split: option.splits sum.splits)

lemma getToken_ok_others:
  assumes "snd (getTokenForAccount ttl world accounts i cache now) = Inr t" "j \<noteq> i"
  shows "fst (fst (getTokenForAccount ttl world accounts i cache now)) ! j = accounts ! j"
  using assms
  by (auto simp: getTokenForAccount_def Let_def split: option.splits sum.splits if_splits)

lemma limitOf_cong: "modelRateLimits a = modelRateLimits b \<Longrightarrow> limitOf a k = limitOf b k"
  by (simp add: limitOf_def)

lemma markRateLimited_distinct:
  assumes "distinct (map email accounts)" "i < length accounts"
  shows "fst (markRateLimited dflt accounts (email (accounts ! i)) resetMs st modelId now) =
           accounts[i := setLimit (accounts ! i) (propKey modelId)
              \<lparr>isRateLimited = True, resetTime = Some (now + cooldownMs dflt resetMs st)\<rparr>]"
proof -
  have "findIndex (\<lambda>a. email a = email (accounts ! i)) accounts \<noteq> None"
    using assms(2) by (auto simp: findIndex_None)
  then obtain k where k: "findIndex (\<lambda>a. email a = email (accounts ! i)) accounts = Some k" by blast
  from findIndex_Some[OF k] have "k < length accounts" "email (accounts ! k) = email (accounts ! i)"
    by blast+
  then have "k < length (map email accounts)" "i < length (map email accounts)"
    "map email accounts ! k = map email accounts ! i" using assms(2) by simp_all
  then have "k = i" using nth_eq_iff_index_eq[OF assms(1)] by blast
  then show ?thesis using k by (simp add: markRateLimited_def)
qed


lemma tryAccount_all429:
  assumes i: "i < length (m_accounts (mgr w0))"
    and d: "distinct (map email (m_accounts (mgr w0)))"
    and tok: "snd (mgr_getTokenForAccount (tokenTtl cfg) (auth ev) (mgr w0) i (clock w0)) = Inr t"
    and prep: "prepareError ev = None"
    and ne: "replies ev \<noteq> []" and all: "list_all is429 (replies ev)"
  shows "\<exists>etx. snd (tryAccount cfg ev model i w0) = Raised (''Rate limited: '' @ etx)"
    and "accountsAfter cfg ev model i w0 =
             (fst (fst (getTokenForAccount (tokenTtl cfg) (auth ev) (m_accounts (mgr w0)) i
                           (m_tokenCache (mgr w0)) (clock w0))))
             [i := setLimit (fst (fst (getTokenForAccount (tokenTtl cfg) (auth ev)
                        (m_accounts (mgr w0)) i (m_tokenCache (mgr w0)) (clock w0))) ! i)
                 (propKey model)
               \<lparr>isRateLimited = True,
                resetTime = Some (clock w0 + int (elapsed ev)
                  + (if parsedResets (replies ev) = []
                     then fallbackCooldown (defaultCooldown cfg) (m_settings (mgr w0))
                     else Min (set (parsedResets (replies ev)))))\<rparr>]"
proof -
  obtain accs1 cache1 res where g:
    "getTokenForAccount (tokenTtl cfg) (auth ev) (m_accounts (mgr w0)) i (m_tokenCache (mgr w0)) (clock w0)
       = ((accs1, cache1), res)"
    by (metis surj_pair)
  have res: "res = Inr t" using tok g by (simp add: mgr_getTokenForAccount_def)
  have em1: "map email accs1 = map email (m_accounts (mgr w0))"
    using getToken_emails[of "tokenTtl cfg" "auth ev" "m_accounts (mgr w0)" i "m_tokenCache (mgr w0)" "clock w0"]
      g by simp
  then have len1: "length accs1 = length (m_accounts (mgr w0))" by (metis length_map)
  have d1: "distinct (map email accs1)" using d em1 by simp
  have i1: "i < length accs1" using i len1 by simp
  have e1: "email (m_accounts (mgr w0) ! i) = email (accs1 ! i)"
    using em1 i i1 by (metis nth_map)
  let ?st = "(cache1, clock w0 + int (elapsed ev))"
  from tryEndpoints_all429_start[OF ne all, of cfg "email (accs1 ! i)" ?st "defaultCooldown cfg"
      "m_settings (mgr w0)"]
  obtain r etx where te:
    "tryEndpoints cfg (email (accs1 ! i)) (replies ev) NoError ?st = (?st, Exhausted (Is429 r etx))"
    and cd: "cooldownMs (defaultCooldown cfg) r (m_settings (mgr w0))
               = (if parsedResets (replies ev) = []
                  then fallbackCooldown (defaultCooldown cfg) (m_settings (mgr w0))
                  else Min (set (parsedResets (replies ev))))"
    by blast
  have run: "tryAccount cfg ev model i w0 =
      (w0\<lparr>mgr := (mgr w0)\<lparr>m_accounts :=
                fst (markRateLimited (defaultCooldown cfg) accs1 (email (accs1 ! i)) r
                      (m_settings (mgr w0)) model (clock w0 + int (elapsed ev))),
              m_tokenCache := cache1\<rparr>,
           clock := clock w0 + int (elapsed ev)\<rparr>,
       Raised (''Rate limited: '' @ etx))"
    by (simp add: tryAccount_def mgr_getTokenForAccount_def g res prep e1 te
        mgr_markRateLimited_def Let_def)
  have "accountsAfter cfg ev model i w0 =
          accs1[i := setLimit (accs1 ! i) (propKey model)
               \<lparr>isRateLimited = True,
                resetTime = Some (clock w0 + int (elapsed ev)
                  + cooldownMs (defaultCooldown cfg) r (m_settings (mgr w0)))\<rparr>]"
    by (simp add: accountsAfter_def run markRateLimited_distinct[OF d1 i1])
  then show "accountsAfter cfg ev model i w0 =
             (fst (fst (getTokenForAccount (tokenTtl cfg) (auth ev) (m_accounts (mgr w0)) i
                           (m_tokenCache (mgr w0)) (clock w0))))
             [i := setLimit (fst (fst (getTokenForAccount (tokenTtl cfg) (auth ev)
                        (m_accounts (mgr w0)) i (m_tokenCache (mgr w0)) (clock w0))) ! i)
                 (propKey model)
               \<lparr>isRateLimited = True,
                resetTime = Some (clock w0 + int (elapsed ev)
                  + (if parsedResets (replies ev) = []
                     then fallbackCooldown (defaultCooldown cfg) (m_settings (mgr w0))
                     else Min (set (parsedResets (replies ev)))))\<rparr>]"
    unfolding g cd by simp
  show "\<exists>etx. snd (tryAccount cfg ev model i w0) = Raised (''Rate limited: '' @ etx)"
    using run by simp
qed


lemma tryAccount_handled2xx:
  assumes "list_ex isHandled2xx (replies ev)"
  shows "map modelRateLimits (accountsAfter cfg ev model i w0)
           = map modelRateLimits (m_accounts (mgr w0))"
proof -
  obtain accs1 cache1 res where g:
    "getTokenForAccount (tokenTtl cfg) (auth ev) (m_accounts (mgr w0)) i (m_tokenCache (mgr w0)) (clock w0)
       = ((accs1, cache1), res)"
    by (metis surj_pair)
  have l1: "map modelRateLimits accs1 = map modelRateLimits (m_accounts (mgr w0))"
    using getToken_limits[of "tokenTtl cfg" "auth ev" "m_accounts (mgr w0)" i "m_tokenCache (mgr w0)" "clock w0"]
      g by simp
  let ?te = "tryEndpoints cfg (email (m_accounts (mgr w0) ! i)) (replies ev) NoError
        (cache1, clock w0 + int (elapsed ev))"
  obtain cache2 clk2 ex where te: "?te = ((cache2, clk2), ex)"
    by (metis surj_pair)
  have nex: "\<And>e. ex \<noteq> Exhausted e"
    using tryEndpoints_handled2xx[OF assms, of cfg "email (m_accounts (mgr w0) ! i)" NoError
        "(cache1, clock w0 + int (elapsed ev))"] te by simp
  have "m_accounts (mgr (fst (tryAccount cfg ev model i w0))) = accs1"
  proof (cases res)
    case (Inl message)
    then show ?thesis by (simp add: tryAccount_def mgr_getTokenForAccount_def g Let_def)
  next
    case (Inr tk)
    show ?thesis
    proof (cases "prepareError ev")
      case (Some message)
      then show ?thesis using Inr by (simp add: tryAccount_def mgr_getTokenForAccount_def g Let_def)
    next
      case None
      show ?thesis
      proof (cases ex)
        case (Returned x)
        then show ?thesis using Inr None
          by (simp add: tryAccount_def mgr_getTokenForAccount_def g te Let_def)
      next
        case (Rethrown x)
        then show ?thesis using Inr None
          by (simp add: tryAccount_def mgr_getTokenForAccount_def g te Let_def)
      next
        case (Exhausted e)
        then show ?thesis using nex by blast
      qed
    qed
  qed
  then show ?thesis using l1 by (simp add: accountsAfter_def)
qed


text \<open>
  C3, as amended. Take one account attempt on the account at position \<open>i\<close> of the list
  (emails are the unique key of the list), with the token obtained and the request built.
  \<^enum> When every endpoint of the fallback list answers 429, the attempt raises the error
    \<^verbatim>\<open>Rate limited: ...\<close> to the outer loop and the record of that account for the model
    becomes \<^verbatim>\<open>{isRateLimited: true, resetTime}\<close> with \<open>resetTime = now +\<close> the minimum
    of the reset times parsed from the 429 responses that are neither \<^verbatim>\<open>null\<close> nor 0,
    or, when there is none, \<open>now +\<close> the settings cooldown or \<open>DefaultCooldown\<close>;
    \<open>now\<close> is the clock after the requests. No other model's record of the account and
    no other account changes.
  \<^enum> When some endpoint answers 2xx and its body is handled without an exception, no
    rate-limit record of any account changes in the attempt.
\<close>

theorem tryAccount_rate_limit_marking:
  "(i < length (m_accounts (mgr w0)) \<and> distinct (map email (m_accounts (mgr w0)))
      \<and> snd (mgr_getTokenForAccount (tokenTtl cfg) (auth ev) (mgr w0) i (clock w0)) = Inr t
      \<and> prepareError ev = None \<and> replies ev \<noteq> [] \<and> list_all is429 (replies ev) \<longrightarrow>
        (\<exists>etx. snd (tryAccount cfg ev model i w0) = Raised (''Rate limited: '' @ etx))
        \<and> limitOf (accountsAfter cfg ev model i w0 ! i) (propKey model)
            = Some \<lparr>isRateLimited = True,
                    resetTime = Some (clock w0 + int (elapsed ev)
                      + (if parsedResets (replies ev) = []
                         then fallbackCooldown (defaultCooldown cfg) (m_settings (mgr w0))
                         else Min (set (parsedResets (replies ev)))))\<rparr>
        \<and> (\<forall>k. k \<noteq> propKey model \<longrightarrow>
              limitOf (accountsAfter cfg ev model i w0 ! i) k = limitOf (m_accounts (mgr w0) ! i) k)
        \<and> (\<forall>j<length (m_accounts (mgr w0)). j \<noteq> i \<longrightarrow>
              accountsAfter cfg ev model i w0 ! j = m_accounts (mgr w0) ! j))
   \<and> (list_ex isHandled2xx (replies ev) \<longrightarrow>
        map modelRateLimits (accountsAfter cfg ev model i w0)
          = map modelRateLimits (m_accounts (mgr w0)))"
proof (intro conjI impI)
  assume a: "i < length (m_accounts (mgr w0)) \<and> distinct (map email (m_accounts (mgr w0)))
      \<and> snd (mgr_getTokenForAccount (tokenTtl cfg) (auth ev) (mgr w0) i (clock w0)) = Inr t
      \<and> prepareError ev = None \<and> replies ev \<noteq> [] \<and> list_all is429 (replies ev)"
  then have i: "i < length (m_accounts (mgr w0))"
    and d: "distinct (map email (m_accounts (mgr w0)))"
    and tok: "snd (mgr_getTokenForAccount (tokenTtl cfg) (auth ev) (mgr w0) i (clock w0)) = Inr t"
    and prep: "prepareError ev = None"
    and ne: "replies ev \<noteq> []" and all: "list_all is429 (replies ev)"
    by blast+
  let ?g = "getTokenForAccount (tokenTtl cfg) (auth ev) (m_accounts (mgr w0)) i
              (m_tokenCache (mgr w0)) (clock w0)"
  let ?accs1 = "fst (fst ?g)"
  let ?lim = "\<lparr>isRateLimited = True,
                    resetTime = Some (clock w0 + int (elapsed ev)
                      + (if parsedResets (replies ev) = []
                         then fallbackCooldown (defaultCooldown cfg) (m_settings (mgr w0))
                         else Min (set (parsedResets (replies ev)))))\<rparr>"
  note r = tryAccount_all429(1)[OF i d tok prep ne all, of model]
  note after = tryAccount_all429(2)[OF i d tok prep ne all, of model]
  have tok': "snd ?g = Inr t"
    using tok by (simp add: mgr_getTokenForAccount_def split_def Let_def)
  have lims: "map modelRateLimits ?accs1 = map modelRateLimits (m_accounts (mgr w0))"
    by (rule getToken_limits)
  then have len1: "length ?accs1 = length (m_accounts (mgr w0))" by (metis length_map)
  have i1: "i < length ?accs1" using i len1 by simp
  have li: "modelRateLimits (?accs1 ! i) = modelRateLimits (m_accounts (mgr w0) ! i)"
    using lims i i1 by (metis nth_map)
  show "\<exists>etx. snd (tryAccount cfg ev model i w0) = Raised (''Rate limited: '' @ etx)"
    by (rule r)
  show "limitOf (accountsAfter cfg ev model i w0 ! i) (propKey model) = Some ?lim"
    using i1 by (simp add: after limitOf_setLimit)
  show "\<forall>k. k \<noteq> propKey model \<longrightarrow>
              limitOf (accountsAfter cfg ev model i w0 ! i) k = limitOf (m_accounts (mgr w0) ! i) k"
    using i1 limitOf_cong[OF li] by (simp add: after limitOf_setLimit)
  show "\<forall>j<length (m_accounts (mgr w0)). j \<noteq> i \<longrightarrow>
              accountsAfter cfg ev model i w0 ! j = m_accounts (mgr w0) ! j"
    using getToken_ok_others[OF tok'] by (simp add: after)
next
  assume "list_ex isHandled2xx (replies ev)"
  then show "map modelRateLimits (accountsAfter cfg ev model i w0)
          = map modelRateLimits (m_accounts (mgr w0))"
    by (rule tryAccount_handled2xx)
qed


theorem tryAccount_rate_limit_marking_witness:
  "(0::nat) < length (m_accounts (mgr (worldEx [acctFree, acctSpare])))
   \<and> distinct (map email (m_accounts (mgr (worldEx [acctFree, acctSpare]))))
   \<and> snd (mgr_getTokenForAccount (tokenTtl cfgEx)
          (auth (envEx [Response 429 ''A'' (Some 10000) (Inl []), Response 429 ''B'' (Some 20000) (Inl [])]))
          (mgr (worldEx [acctFree, acctSpare])) 0 (clock (worldEx [acctFree, acctSpare]))) = Inr ''tok''
   \<and> list_all is429 [Response 429 ''A'' (Some 10000) (Inl []), Response 429 ''B'' (Some 20000) (Inl [])]
   \<and> parsedResets [Response 429 ''A'' (Some 10000) (Inl []), Response 429 ''B'' (Some 20000) (Inl [])]
        = [10000, 20000]
   \<and> limitOf (accountsAfter cfgEx
          (envEx [Response 429 ''A'' (Some 10000) (Inl []), Response 429 ''B'' (Some 20000) (Inl [])])
          (Some ''m'') 0 (worldEx [acctFree, acctSpare]) ! 0) ''m''
        = Some \<lparr>isRateLimited = True, resetTime = Some 10100\<rparr>
   \<and> accountsAfter cfgEx
          (envEx [Response 429 ''A'' (Some 10000) (Inl []), Response 429 ''B'' (Some 20000) (Inl [])])
          (Some ''m'') 0 (worldEx [acctFree, acctSpare]) ! 1 = acctSpare
   \<and> list_ex isHandled2xx [Response 429 ''A'' (Some 10000) (Inl []), Response 200 [] None (Inr ''hello'')]
   \<and> map modelRateLimits (accountsAfter cfgEx
          (envEx [Response 429 ''A'' (Some 10000) (Inl []), Response 200 [] None (Inr ''hello'')])
          (Some ''m'') 0 (worldEx [acctFree, acctSpare])) = [None, None]"
proof -
  let ?rs = "[Response 429 ''A'' (Some 10000) (Inl []), Response 429 ''B'' (Some 20000) (Inl [])]"
  let ?ok = "[Response 429 ''A'' (Some 10000) (Inl []), Response 200 [] None (Inr ''hello'')]"
  let ?w = "worldEx [acctFree, acctSpare]"
  have h1: "(0::nat) < length (m_accounts (mgr ?w))"
    and h2: "distinct (map email (m_accounts (mgr ?w)))"
    by (simp_all add: worldEx_def mgrEx_def ex_defs)
  have h3: "snd (mgr_getTokenForAccount (tokenTtl cfgEx) (auth (envEx ?rs)) (mgr ?w) 0 (clock ?w))
             = Inr ''tok''"
    by (simp add: try_defs ex_defs Let_def)
  have h4: "prepareError (envEx ?rs) = None" "replies (envEx ?rs) \<noteq> []"
    "replies (envEx ?rs) = ?rs" "replies (envEx ?ok) = ?ok" "elapsed (envEx ?rs) = 0"
    by (simp_all add: envEx_def)
  have h5: "list_all is429 ?rs" by (simp add: is429_def)
  have h6: "parsedResets ?rs = [10000, 20000]" by (simp add: parsedResets_def)
  have h7: "list_ex isHandled2xx ?ok" by (simp add: isHandled2xx_def)
  have pre: "0 < length (m_accounts (mgr ?w)) \<and> distinct (map email (m_accounts (mgr ?w)))
      \<and> snd (mgr_getTokenForAccount (tokenTtl cfgEx) (auth (envEx ?rs)) (mgr ?w) 0 (clock ?w))
            = Inr ''tok''
      \<and> prepareError (envEx ?rs) = None \<and> replies (envEx ?rs) \<noteq> []
      \<and> list_all is429 (replies (envEx ?rs))"
    using h1 h2 h3 h4 h5 by simp
  note A = mp[OF conjunct1[OF tryAccount_rate_limit_marking[of 0 ?w cfgEx "envEx ?rs" "''tok''" "Some ''m''"]] pre]
  note B = conjunct2[OF tryAccount_rate_limit_marking[of 0 ?w cfgEx "envEx ?ok" "''tok''" "Some ''m''"]]
  have a1: "limitOf (accountsAfter cfgEx (envEx ?rs) (Some ''m'') 0 ?w ! 0) ''m''
        = Some \<lparr>isRateLimited = True, resetTime = Some 10100\<rparr>"
    using conjunct1[OF conjunct2[OF A]]
    by (simp add: h4 h6 propKey_def worldEx_def)
  have a2: "accountsAfter cfgEx (envEx ?rs) (Some ''m'') 0 ?w ! 1 = acctSpare"
    using conjunct2[OF conjunct2[OF conjunct2[OF A]]]
    by (simp add: worldEx_def mgrEx_def)
  have h7': "list_ex isHandled2xx (replies (envEx ?ok))" using h7 by (simp only: h4)
  have b: "map modelRateLimits (accountsAfter cfgEx (envEx ?ok) (Some ''m'') 0 ?w) = [None, None]"
    using mp[OF B h7'] by (simp add: worldEx_def mgrEx_def ex_defs)
  show ?thesis using h1 h2 h3 h5 h6 a1 a2 h7 b by blast
qed

text \<open>
  C3 as stated fails twice. Two 429 responses with parsed reset times 0 and 20000 mark
  the account until \<open>now + 20000\<close>, not \<open>now + min 0 20000\<close>. And a first endpoint that
  answers 200 with a body the parser rejects, followed by an endpoint that answers 429,
  leaves the account marked rate-limited although an endpoint responded 2xx.
\<close>

theorem tryAccount_rate_limit_marking_counterexample:
  "list_all is429 [Response 429 ''A'' (Some 0) (Inl []), Response 429 ''B'' (Some 20000) (Inl [])]
   \<and> clock (worldEx [acctFree, acctSpare]) = 100
   \<and> limitOf (accountsAfter cfgEx
          (envEx [Response 429 ''A'' (Some 0) (Inl []), Response 429 ''B'' (Some 20000) (Inl [])])
          (Some ''m'') 0 (worldEx [acctFree, acctSpare]) ! 0) ''m''
        = Some \<lparr>isRateLimited = True, resetTime = Some 20100\<rparr>
   \<and> (20100::int) \<noteq> 100 + min 0 20000
   \<and> limitOf (m_accounts (mgr (worldEx [acctFree, acctSpare])) ! 0) ''m'' = None
   \<and> limitOf (accountsAfter cfgEx
          (envEx [Response 200 [] None (Inl ''Unexpected end of JSON input''),
                  Response 429 ''B'' (Some 20000) (Inl [])])
          (Some ''m'') 0 (worldEx [acctFree, acctSpare]) ! 0) ''m''
        = Some \<lparr>isRateLimited = True, resetTime = Some 20100\<rparr>"
  by (simp add: try_defs ex_defs ev_defs str_defs is429_def)

end
